theory Spec2Isabelle
  imports Complex_Main "HOL-Library.Word" "HOL-Library.Multiset"
begin

section \<open>Memtable: the skip list of skiplist.cpp\<close>

text \<open>
  The skip list is kept as the chain of its NORMAL nodes between the HEAD and the TAIL
  sentinel, in the order of the level-0 pointers. Every node carries the number of forward
  pointers it is linked with (the level drawn by \<open>randLevel\<close> when it was inserted), so
  that \<open>cur->nxt[i]\<close> is the first later node with more than \<open>i\<close> levels, and TAIL when
  there is none. A position \<open>cur\<close> of the search is represented by the part of the chain
  that lies after \<open>cur\<close>. Keys are \<open>uint64_t\<close>, the byte counter \<open>bytes\<close> is
  \<open>uint32_t\<close>, the node counter \<open>s\<close> is \<open>uint64_t\<close>. The constant \<open>MAX_LEVEL\<close> is
  declared in skiplist.h, which is not part of the sources at hand: it is a field of the
  model, and no result depends on its value.
\<close>

record slnode =
  sl_key :: "64 word"
  sl_val :: string
  sl_levels :: nat

record skiplist =
  MAX_LEVEL :: nat
  sl_nodes :: "slnode list"
  curMaxL :: nat
  sl_s :: "64 word"
  sl_bytes :: "32 word"

text \<open>\<open>cur->nxt[i]\<close>: the node, and the chain after it; \<open>None\<close> is TAIL.\<close>

definition nxt :: "nat \<Rightarrow> slnode list \<Rightarrow> (slnode \<times> slnode list) option" where
  "nxt i rest = (case dropWhile (\<lambda>n. sl_levels n \<le> i) rest of
                   [] \<Rightarrow> None
                 | n # after \<Rightarrow> Some (n, after))"

lemma nxt_length: "nxt i rest = Some (n, after) \<Longrightarrow> length after < length rest"
proof -
  assume a: "nxt i rest = Some (n, after)"
  have "length (dropWhile (\<lambda>n. sl_levels n \<le> i) rest) \<le> length rest"
    by (rule length_dropWhile_le)
  with a show ?thesis
    by (auto simp: nxt_def split: list.splits)
qed

text \<open>
  \<open>while (cur->nxt[i]->key < key && cur->nxt[i]->type != TAIL) cur = cur->nxt[i];\<close>
\<close>

function walk :: "nat \<Rightarrow> 64 word \<Rightarrow> slnode list \<Rightarrow> slnode list" where
  "walk i k rest =
     (case nxt i rest of
        None \<Rightarrow> rest
      | Some (n, after) \<Rightarrow> if sl_key n < k then walk i k after else rest)"
  by pat_completeness auto
termination
  by (relation "measure (\<lambda>(i, k, rest). length rest)") (auto dest: nxt_length)

declare walk.simps [simp del]

text \<open>
  \<open>for (int i = curMaxL - 1; i >= 0; --i) { while ... }\<close>: the first argument counts the
  levels still to visit.
\<close>

fun descend :: "nat \<Rightarrow> 64 word \<Rightarrow> slnode list \<Rightarrow> slnode list" where
  "descend 0 k rest = rest"
| "descend (Suc i) k rest = descend i k (walk i k rest)"

text \<open>\<open>lowerBound\<close> returns \<open>cur->nxt[0]\<close>: the chain that starts with that node.\<close>

definition nxt0 :: "slnode list \<Rightarrow> slnode list" where
  "nxt0 rest = (case nxt 0 rest of None \<Rightarrow> [] | Some (m, r) \<Rightarrow> m # r)"

lemma nxt0_length: "length (nxt0 rest) \<le> length rest"
  using nxt_length [of 0 rest] by (auto simp: nxt0_def split: option.splits)

definition lowerBound :: "skiplist \<Rightarrow> 64 word \<Rightarrow> slnode list" where
  "lowerBound sl k = nxt0 (descend (curMaxL sl) k (sl_nodes sl))"

definition skiplist_search :: "skiplist \<Rightarrow> 64 word \<Rightarrow> string" where
  "skiplist_search sl k =
     (case lowerBound sl k of
        [] \<Rightarrow> []
      | n # after \<Rightarrow> if sl_key n = k then sl_val n else [])"

text \<open>
  \<open>randLevel\<close>: \<open>level = 1; while (my_rand() < p && level < MAX_LEVEL) level++;\<close>.
  The random source is the list of the outcomes of \<open>my_rand() < p\<close>, in the order of
  the draws.
\<close>

fun randLevel_loop :: "nat \<Rightarrow> bool list \<Rightarrow> nat \<Rightarrow> nat" where
  "randLevel_loop maxl [] level = level"
| "randLevel_loop maxl (r # rs) level =
     (if r \<and> level < maxl then randLevel_loop maxl rs (level + 1) else level)"

definition randLevel :: "skiplist \<Rightarrow> bool list \<Rightarrow> nat" where
  "randLevel sl draws = randLevel_loop (MAX_LEVEL sl) draws 1"

text \<open>
  \<open>insert\<close>: the nodes before the position found are kept; a new node is linked in
  before \<open>cur->nxt[0]\<close>, with the level that \<open>randLevel\<close> draws.
\<close>

definition skiplist_insert :: "bool list \<Rightarrow> 64 word \<Rightarrow> string \<Rightarrow> skiplist \<Rightarrow> skiplist" where
  "skiplist_insert draws k str sl =
     (let cur = lowerBound sl k;
          before = take (length (sl_nodes sl) - length cur) (sl_nodes sl);
          level = randLevel sl draws;
          newNode = \<lparr>sl_key = k, sl_val = str, sl_levels = level\<rparr>
      in case cur of
           n # after \<Rightarrow>
             if sl_key n = k
             then sl\<lparr>sl_nodes := before @ n\<lparr>sl_val := str\<rparr> # after,
                     sl_bytes := sl_bytes sl - of_nat (length (sl_val n)) + of_nat (length str)\<rparr>
             else sl\<lparr>sl_nodes := before @ newNode # cur,
                     curMaxL := max level (curMaxL sl),
                     sl_s := sl_s sl + 1,
                     sl_bytes := sl_bytes sl + (12 + of_nat (length str))\<rparr>
         | [] \<Rightarrow>
             sl\<lparr>sl_nodes := before @ [newNode],
                curMaxL := max level (curMaxL sl),
                sl_s := sl_s sl + 1,
                sl_bytes := sl_bytes sl + (12 + of_nat (length str))\<rparr>)"

text \<open>
  \<open>while (curMaxL > 1 && head->nxt[curMaxL - 1] == tail) curMaxL--;\<close>
\<close>

fun shrinkMaxL :: "nat \<Rightarrow> slnode list \<Rightarrow> nat" where
  "shrinkMaxL 0 ns = 0"
| "shrinkMaxL (Suc m) ns =
     (if 1 < Suc m \<and> nxt m ns = None then shrinkMaxL m ns else Suc m)"

text \<open>\<open>del(key, len)\<close>: the flag it returns, and the list after it. \<open>len\<close> is not used.\<close>

definition skiplist_del :: "64 word \<Rightarrow> 32 word \<Rightarrow> skiplist \<Rightarrow> bool \<times> skiplist" where
  "skiplist_del k len sl =
     (let cur = lowerBound sl k;
          before = take (length (sl_nodes sl) - length cur) (sl_nodes sl)
      in case cur of
           [] \<Rightarrow> (False, sl)
         | n # after \<Rightarrow>
             if sl_key n \<noteq> k then (False, sl)
             else (True,
                   sl\<lparr>sl_nodes := before @ after,
                      sl_bytes := sl_bytes sl - (12 + of_nat (length (sl_val n))),
                      curMaxL := shrinkMaxL (curMaxL sl) (before @ after),
                      sl_s := sl_s sl - 1\<rparr>))"

text \<open>
  \<open>scan\<close>: from \<open>lowerBound(key1)\<close>, \<open>while (cur->type != TAIL && cur->key <= key2)\<close>.
\<close>

function scan_from :: "64 word \<Rightarrow> slnode list \<Rightarrow> (64 word \<times> string) list" where
  "scan_from k2 [] = []"
| "scan_from k2 (n # after) =
     (if sl_key n \<le> k2 then (sl_key n, sl_val n) # scan_from k2 (nxt0 after) else [])"
  by pat_completeness auto
termination
  by (relation "measure (\<lambda>(k2, rest). length rest)") (auto simp: nxt0_length less_Suc_eq_le)

definition skiplist_scan :: "skiplist \<Rightarrow> 64 word \<Rightarrow> 64 word \<Rightarrow> (64 word \<times> string) list" where
  "skiplist_scan sl k1 k2 = scan_from k2 (lowerBound sl k1)"

definition skiplist_reset :: "skiplist \<Rightarrow> skiplist" where
  "skiplist_reset sl = sl\<lparr>sl_nodes := [], sl_s := 1, sl_bytes := 0, curMaxL := 1\<rparr>"

definition getBytes :: "skiplist \<Rightarrow> 32 word" where
  "getBytes sl = sl_bytes sl"

definition getCnt :: "skiplist \<Rightarrow> 64 word" where
  "getCnt sl = sl_s sl"

text \<open>\<open>getFirst\<close> (used by the flush): \<open>head->nxt[0]\<close>.\<close>

definition getFirst :: "skiplist \<Rightarrow> slnode list" where
  "getFirst sl = nxt0 (sl_nodes sl)"

text \<open>
  Modelled from the spec: the constructor of the skip list is in skiplist.h, which is not
  part of the sources at hand. "Memtable: created empty": no node, no byte, one level, and
  the node counter at the value \<open>reset\<close> gives it.
\<close>

definition skiplist_new :: "nat \<Rightarrow> skiplist" where
  "skiplist_new maxl = \<lparr>MAX_LEVEL = maxl, sl_nodes = [], curMaxL = 1, sl_s = 1, sl_bytes = 0\<rparr>"

subsection \<open>Byte accounting\<close>

definition payload :: "slnode list \<Rightarrow> nat" where
  "payload ns = sum_list (map (\<lambda>n. 12 + length (sl_val n)) ns)"

datatype memop = Insert "bool list" "64 word" string | Del "64 word" "32 word" | Reset

fun memop_step :: "skiplist \<Rightarrow> memop \<Rightarrow> skiplist" where
  "memop_step sl (Insert draws k str) = skiplist_insert draws k str sl"
| "memop_step sl (Del k len) = snd (skiplist_del k len sl)"
| "memop_step sl Reset = skiplist_reset sl"

subsection \<open>Facts about the search\<close>

lemma nxt_Some_decomp:
  "nxt i rest = Some (n, after) \<Longrightarrow> \<exists>p. rest = p @ n # after \<and> (\<forall>m\<in>set p. sl_levels m \<le> i) \<and> i < sl_levels n"
proof -
  assume a: "nxt i rest = Some (n, after)"
  let ?P = "\<lambda>n. sl_levels n \<le> i"
  from a have d: "dropWhile ?P rest = n # after"
    by (auto simp: nxt_def split: list.splits)
  have "rest = takeWhile ?P rest @ dropWhile ?P rest" by simp
  with d have "rest = takeWhile ?P rest @ n # after" by simp
  moreover have "\<forall>m\<in>set (takeWhile ?P rest). sl_levels m \<le> i"
    by (auto dest: set_takeWhileD)
  moreover from d have "\<not> ?P n" by (metis hd_dropWhile list.sel(1) list.distinct(1))
  ultimately show ?thesis by (intro exI [of _ "takeWhile ?P rest"]) auto
qed

lemma walk_suffix: "\<exists>p. rest = p @ walk i k rest"
proof (induction i k rest rule: walk.induct)
  case (1 i k rest)
  show ?case
  proof (cases "nxt i rest")
    case None
    then show ?thesis by (simp add: walk.simps [of i k rest])
  next
    case (Some a)
    obtain n after where a: "a = (n, after)" by (cases a)
    show ?thesis
    proof (cases "sl_key n < k")
      case True
      from Some a obtain p where p: "rest = p @ n # after"
        using nxt_Some_decomp by blast
      from 1 [OF Some [unfolded a] refl True] obtain q where "after = q @ walk i k after" by blast
      with p have r: "rest = (p @ n # q) @ walk i k after" by simp
      from Some a True have "walk i k rest = walk i k after"
        by (simp add: walk.simps [of i k rest])
      with r show ?thesis by metis
    next
      case False
      with Some a show ?thesis by (simp add: walk.simps [of i k rest])
    qed
  qed
qed

lemma descend_suffix: "\<exists>p. rest = p @ descend i k rest"
proof (induction i arbitrary: rest)
  case 0
  then show ?case by simp
next
  case (Suc i)
  obtain p where p: "rest = p @ walk i k rest" using walk_suffix by blast
  obtain q where q: "walk i k rest = q @ descend i k (walk i k rest)" using Suc by blast
  have "rest = (p @ q) @ descend i k (walk i k rest)" using p q by (metis append.assoc)
  then show ?case by (simp del: append_assoc) blast
qed

lemma nxt0_suffix: "\<exists>p. rest = p @ nxt0 rest"
proof (cases "nxt 0 rest")
  case None
  then show ?thesis by (simp add: nxt0_def)
next
  case (Some a)
  obtain n after where a: "a = (n, after)" by (cases a)
  from Some a obtain p where "rest = p @ n # after" using nxt_Some_decomp by blast
  moreover from Some a have "nxt0 rest = n # after" by (simp add: nxt0_def)
  ultimately show ?thesis by metis
qed

lemma lowerBound_suffix: "\<exists>p. sl_nodes sl = p @ lowerBound sl k"
proof -
  obtain p where p: "sl_nodes sl = p @ descend (curMaxL sl) k (sl_nodes sl)"
    using descend_suffix by blast
  obtain q where q: "descend (curMaxL sl) k (sl_nodes sl) = q @ lowerBound sl k"
    unfolding lowerBound_def using nxt0_suffix by blast
  have "sl_nodes sl = (p @ q) @ lowerBound sl k" using p q by (metis append.assoc)
  then show ?thesis by blast
qed

lemma lowerBound_before:
  "take (length (sl_nodes sl) - length (lowerBound sl k)) (sl_nodes sl) @ lowerBound sl k = sl_nodes sl"
proof -
  obtain p where p: "sl_nodes sl = p @ lowerBound sl k" using lowerBound_suffix by blast
  have "take (length (p @ lowerBound sl k) - length (lowerBound sl k)) (p @ lowerBound sl k) = p"
    by simp
  with p show ?thesis by metis
qed

lemma payload_append [simp]: "payload (a @ b) = payload a + payload b"
  by (simp add: payload_def)

lemma payload_Cons [simp]: "payload (n # ns) = 12 + length (sl_val n) + payload ns"
  by (simp add: payload_def)

lemma payload_Nil [simp]: "payload [] = 0"
  by (simp add: payload_def)

definition bytes_ok :: "skiplist \<Rightarrow> bool" where
  "bytes_ok sl \<longleftrightarrow> sl_bytes sl = of_nat (payload (sl_nodes sl))"

lemma payload_split: "payload (sl_nodes sl) = payload (take (length (sl_nodes sl) - length (lowerBound sl k)) (sl_nodes sl)) + payload (lowerBound sl k)"
  using lowerBound_before [of sl k] payload_append by metis

lemma ins_Nil: "lowerBound sl k = [] \<Longrightarrow> skiplist_insert draws k str sl = 
   sl\<lparr>sl_nodes := sl_nodes sl @ [\<lparr>sl_key = k, sl_val = str, sl_levels = randLevel sl draws\<rparr>],
                curMaxL := max (randLevel sl draws) (curMaxL sl),
                sl_s := sl_s sl + 1,
                sl_bytes := sl_bytes sl + (12 + of_nat (length str))\<rparr>"
  using lowerBound_before [of sl k]
  by (simp add: skiplist_insert_def Let_def)

lemma ins_hit: "lowerBound sl k = n # after \<Longrightarrow> sl_key n = k \<Longrightarrow> sl_nodes sl = p @ n # after \<Longrightarrow> 
   skiplist_insert draws k str sl = 
   sl\<lparr>sl_nodes := p @ n\<lparr>sl_val := str\<rparr> # after,
      sl_bytes := sl_bytes sl - of_nat (length (sl_val n)) + of_nat (length str)\<rparr>"
  by (simp add: skiplist_insert_def Let_def)

lemma ins_miss: "lowerBound sl k = n # after \<Longrightarrow> sl_key n \<noteq> k \<Longrightarrow> sl_nodes sl = p @ n # after \<Longrightarrow> 
   skiplist_insert draws k str sl = 
   sl\<lparr>sl_nodes := p @ \<lparr>sl_key = k, sl_val = str, sl_levels = randLevel sl draws\<rparr> # n # after,
                curMaxL := max (randLevel sl draws) (curMaxL sl),
                sl_s := sl_s sl + 1,
                sl_bytes := sl_bytes sl + (12 + of_nat (length str))\<rparr>"
  by (simp add: skiplist_insert_def Let_def)

lemma del_hit: "lowerBound sl k = n # after \<Longrightarrow> sl_key n = k \<Longrightarrow> sl_nodes sl = p @ n # after \<Longrightarrow> 
   skiplist_del k len sl = (True,
                   sl\<lparr>sl_nodes := p @ after,
                      sl_bytes := sl_bytes sl - (12 + of_nat (length (sl_val n))),
                      curMaxL := shrinkMaxL (curMaxL sl) (p @ after),
                      sl_s := sl_s sl - 1\<rparr>)"
  by (simp add: skiplist_del_def Let_def)

lemma del_miss: "lowerBound sl k = [] \<or> (\<exists>n after. lowerBound sl k = n # after \<and> sl_key n \<noteq> k) \<Longrightarrow>
   skiplist_del k len sl = (False, sl)"
  by (auto simp: skiplist_del_def Let_def)

lemma lowerBound_Cons_decomp: "lowerBound sl k = n # after \<Longrightarrow> \<exists>p. sl_nodes sl = p @ n # after"
  using lowerBound_suffix [of sl k] by auto

lemma bytes_ok_insert: "bytes_ok sl \<Longrightarrow> bytes_ok (skiplist_insert draws k str sl)"
proof -
  assume ok: "bytes_ok sl"
  show ?thesis
  proof (cases "lowerBound sl k")
    case Nil
    with ok show ?thesis by (simp add: ins_Nil bytes_ok_def)
  next
    case (Cons n after)
    then obtain p where p: "sl_nodes sl = p @ n # after" using lowerBound_Cons_decomp by blast
    show ?thesis
    proof (cases "sl_key n = k")
      case True
      from ok p show ?thesis
        by (simp add: ins_hit [OF Cons True p] bytes_ok_def)
    next
      case False
      from ok p show ?thesis
        by (simp add: ins_miss [OF Cons False p] bytes_ok_def)
    qed
  qed
qed

lemma bytes_ok_del: "bytes_ok sl \<Longrightarrow> bytes_ok (snd (skiplist_del k len sl))"
proof -
  assume ok: "bytes_ok sl"
  show ?thesis
  proof (cases "lowerBound sl k")
    case Nil
    with ok show ?thesis by (simp add: del_miss)
  next
    case (Cons n after)
    then obtain p where p: "sl_nodes sl = p @ n # after" using lowerBound_Cons_decomp by blast
    show ?thesis
    proof (cases "sl_key n = k")
      case True
      from ok p show ?thesis
        by (simp add: del_hit [OF Cons True p] bytes_ok_def)
    next
      case False
      with ok Cons show ?thesis by (simp add: del_miss)
    qed
  qed
qed

lemma bytes_ok_reset: "bytes_ok (skiplist_reset sl)"
  by (simp add: bytes_ok_def skiplist_reset_def)

lemma bytes_ok_new: "bytes_ok (skiplist_new m)"
  by (simp add: bytes_ok_def skiplist_new_def)

lemma bytes_ok_step: "bytes_ok sl \<Longrightarrow> bytes_ok (memop_step sl op)"
  by (cases op) (simp_all add: bytes_ok_insert bytes_ok_del bytes_ok_reset)

lemma bytes_ok_foldl: "bytes_ok sl \<Longrightarrow> bytes_ok (foldl memop_step sl ops)"
  by (induction ops arbitrary: sl) (simp_all add: bytes_ok_step)

subsection \<open>Well-formed skip lists: what the search finds\<close>

definition sl_wf :: "skiplist \<Rightarrow> bool" where
  "sl_wf sl \<longleftrightarrow> sorted_wrt (<) (map sl_key (sl_nodes sl)) \<and>
              (\<forall>n\<in>set (sl_nodes sl). 1 \<le> sl_levels n) \<and> 1 \<le> curMaxL sl"

definition entries :: "skiplist \<Rightarrow> (64 word \<times> string) list" where
  "entries sl = map (\<lambda>n. (sl_key n, sl_val n)) (sl_nodes sl)"

lemma nxt_levels_pos:
  "\<forall>n\<in>set rest. 1 \<le> sl_levels n \<Longrightarrow> nxt 0 rest = (case rest of [] \<Rightarrow> None | n # a \<Rightarrow> Some (n, a))"
  by (cases rest) (auto simp: nxt_def)

lemma nxt0_levels_pos: "\<forall>n\<in>set rest. 1 \<le> sl_levels n \<Longrightarrow> nxt0 rest = rest"
  by (cases rest) (auto simp: nxt0_def nxt_def)

definition below :: "64 word \<Rightarrow> slnode list \<Rightarrow> slnode list \<Rightarrow> bool" where
  "below k ns rest \<longleftrightarrow> (\<exists>p. ns = p @ rest \<and> (\<forall>m\<in>set p. sl_key m < k))"

lemma below_walk:
  "sorted_wrt (<) (map sl_key ns) \<Longrightarrow> below k ns rest \<Longrightarrow> below k ns (walk i k rest)"
proof (induction i k rest rule: walk.induct)
  case (1 i k rest)
  show ?case
  proof (cases "nxt i rest")
    case None
    with 1(3) show ?thesis by (simp add: walk.simps [of i k rest])
  next
    case (Some a)
    obtain n after where a: "a = (n, after)" by (cases a)
    show ?thesis
    proof (cases "sl_key n < k")
      case True
      from Some a obtain q where q: "rest = q @ n # after"
        using nxt_Some_decomp by blast
      from 1(3) obtain p where p: "ns = p @ rest" "\<forall>m\<in>set p. sl_key m < k"
        by (auto simp: below_def)
      from p q have ns: "ns = (p @ q @ [n]) @ after" by simp
      from 1(2) p(1) q have "\<forall>m\<in>set q. sl_key m < sl_key n"
        by (auto simp: sorted_wrt_append)
      with True have "\<forall>m\<in>set q. sl_key m < k" by auto
      with p(2) True have "\<forall>m\<in>set (p @ q @ [n]). sl_key m < k" by auto
      with ns have "below k ns after" unfolding below_def by blast
      from 1(1) [OF Some [unfolded a] refl True 1(2) this]
      have "below k ns (walk i k after)" .
      moreover from Some a True have "walk i k rest = walk i k after"
        by (simp add: walk.simps [of i k rest])
      ultimately show ?thesis by simp
    next
      case False
      with Some a 1(3) show ?thesis by (simp add: walk.simps [of i k rest])
    qed
  qed
qed

lemma below_descend:
  "sorted_wrt (<) (map sl_key ns) \<Longrightarrow> below k ns rest \<Longrightarrow> below k ns (descend i k rest)"
  by (induction i arbitrary: rest) (simp_all add: below_walk)

definition stopped :: "nat \<Rightarrow> 64 word \<Rightarrow> slnode list \<Rightarrow> bool" where
  "stopped i k rest \<longleftrightarrow> (case nxt i rest of None \<Rightarrow> True | Some (n, a) \<Rightarrow> \<not> sl_key n < k)"

lemma walk_stopped: "stopped i k (walk i k rest)"
proof (induction i k rest rule: walk.induct)
  case (1 i k rest)
  show ?case
  proof (cases "nxt i rest")
    case None
    then show ?thesis by (simp add: walk.simps [of i k rest] stopped_def)
  next
    case (Some a)
    obtain n after where a: "a = (n, after)" by (cases a)
    show ?thesis
    proof (cases "sl_key n < k")
      case True
      from 1 [OF Some [unfolded a] refl True] Some a True show ?thesis
        by (simp add: walk.simps [of i k rest])
    next
      case False
      with Some a show ?thesis by (simp add: walk.simps [of i k rest] stopped_def)
    qed
  qed
qed

lemma descend_stopped: "stopped 0 k (descend (Suc i) k rest)"
proof (induction i arbitrary: rest)
  case 0
  show ?case by (simp add: walk_stopped)
next
  case (Suc i)
  have "descend (Suc (Suc i)) k rest = descend (Suc i) k (walk (Suc i) k rest)" by simp
  with Suc show ?case by metis
qed

lemma dropWhile_below:
  assumes "ns = p @ rest" "\<forall>m\<in>set p. sl_key m < k" "rest = [] \<or> \<not> sl_key (hd rest) < k"
  shows "dropWhile (\<lambda>n. sl_key n < k) ns = rest"
proof -
  have "dropWhile (\<lambda>n. sl_key n < k) (p @ rest) = dropWhile (\<lambda>n. sl_key n < k) rest"
    using assms(2) by simp
  also have "\<dots> = rest" using assms(3) by (cases rest) auto
  finally show ?thesis using assms(1) by simp
qed

lemma lowerBound_dropWhile:
  assumes "sl_wf sl"
  shows "lowerBound sl k = dropWhile (\<lambda>n. sl_key n < k) (sl_nodes sl)"
proof -
  let ?ns = "sl_nodes sl"
  let ?r = "descend (curMaxL sl) k ?ns"
  from assms have srt: "sorted_wrt (<) (map sl_key ?ns)" and lv: "\<forall>n\<in>set ?ns. 1 \<le> sl_levels n"
    and c: "1 \<le> curMaxL sl" by (auto simp: sl_wf_def)
  have "below k ?ns ?ns" by (simp add: below_def)
  with srt have "below k ?ns ?r" by (rule below_descend)
  then obtain p where p: "?ns = p @ ?r" "\<forall>m\<in>set p. sl_key m < k" by (auto simp: below_def)
  from p(1) lv have lvr: "\<forall>n\<in>set ?r. 1 \<le> sl_levels n" by (metis Un_iff set_append)
  from c obtain j where "curMaxL sl = Suc j" by (cases "curMaxL sl") auto
  then have "stopped 0 k ?r" using descend_stopped by simp
  with lvr have "?r = [] \<or> \<not> sl_key (hd ?r) < k"
    by (cases ?r) (auto simp: stopped_def nxt_levels_pos)
  with p have "dropWhile (\<lambda>n. sl_key n < k) ?ns = ?r" by (rule dropWhile_below)
  moreover have "lowerBound sl k = ?r" using lvr by (simp add: lowerBound_def nxt0_levels_pos)
  ultimately show ?thesis by simp
qed

lemma randLevel_loop_ge: "level \<le> randLevel_loop maxl draws level"
  by (induction draws arbitrary: level) (auto intro: le_trans [OF _ Suc_leD])

lemma randLevel_pos: "Suc 0 \<le> randLevel sl draws"
  unfolding randLevel_def using randLevel_loop_ge [of 1] by simp

lemma sorted_take_drop_While:
  "sorted_wrt (<) (map sl_key ns) \<Longrightarrow>
   (\<forall>m\<in>set (takeWhile (\<lambda>n. sl_key n < k) ns). sl_key m < k) \<and>
   (\<forall>m\<in>set (dropWhile (\<lambda>n. sl_key n < k) ns). k \<le> sl_key m)"
proof (induction ns)
  case Nil
  then show ?case by simp
next
  case (Cons n ns)
  then show ?case by (auto simp: not_less) 
qed

lemma sl_wf_decomp:
  assumes "sl_wf sl"
  shows "\<exists>p. sl_nodes sl = p @ lowerBound sl k \<and> (\<forall>m\<in>set p. sl_key m < k) \<and>
             (\<forall>m\<in>set (lowerBound sl k). k \<le> sl_key m)"
proof -
  let ?P = "\<lambda>n. sl_key n < k"
  from assms have srt: "sorted_wrt (<) (map sl_key (sl_nodes sl))" by (simp add: sl_wf_def)
  have "sl_nodes sl = takeWhile ?P (sl_nodes sl) @ dropWhile ?P (sl_nodes sl)" by simp
  then have "sl_nodes sl = takeWhile ?P (sl_nodes sl) @ lowerBound sl k"
    using lowerBound_dropWhile [OF assms, of k] by simp
  moreover have "\<forall>m\<in>set (takeWhile ?P (sl_nodes sl)). sl_key m < k"
    using sorted_take_drop_While [OF srt, of k] by blast
  moreover have "\<forall>m\<in>set (lowerBound sl k). k \<le> sl_key m"
    using sorted_take_drop_While [OF srt, of k] lowerBound_dropWhile [OF assms, of k] by simp
  ultimately show ?thesis by blast
qed

lemma sl_wf_insert:
  assumes wf: "sl_wf sl"
  shows "sl_wf (skiplist_insert draws k str sl)"
proof -
  from sl_wf_decomp [OF wf, of k] obtain p where
    p: "sl_nodes sl = p @ lowerBound sl k" and pk: "\<forall>m\<in>set p. sl_key m < k"
    and lk: "\<forall>m\<in>set (lowerBound sl k). k \<le> sl_key m" by blast
  from wf have srt: "sorted_wrt (<) (map sl_key (sl_nodes sl))"
    and lv: "\<forall>n\<in>set (sl_nodes sl). 1 \<le> sl_levels n" and c: "1 \<le> curMaxL sl"
    by (auto simp: sl_wf_def)
  show ?thesis
  proof (cases "lowerBound sl k")
    case Nil
    with p pk have "\<forall>m\<in>set (sl_nodes sl). sl_key m < k" by simp
    with srt lv c show ?thesis
      by (auto simp: ins_Nil [OF Nil] sl_wf_def sorted_wrt_append randLevel_pos)
  next
    case (Cons n after)
    with p have p': "sl_nodes sl = p @ n # after" by simp
    from lk Cons have nk: "k \<le> sl_key n" by simp
    from srt have srt': "sorted_wrt (<) (map sl_key (p @ n # after))" unfolding p' .
    from lv have lv': "\<forall>n\<in>set (p @ n # after). 1 \<le> sl_levels n" unfolding p' .
    show ?thesis
    proof (cases "sl_key n = k")
      case True
      from srt' lv' c show ?thesis
        by (auto simp: ins_hit [OF Cons True p'] sl_wf_def sorted_wrt_append)
    next
      case False
      with nk have "k < sl_key n" by simp
      with srt' lv' c pk show ?thesis
        by (auto simp: ins_miss [OF Cons False p'] sl_wf_def sorted_wrt_append randLevel_pos)
    qed
  qed
qed

lemma shrinkMaxL_pos: "Suc 0 \<le> m \<Longrightarrow> Suc 0 \<le> shrinkMaxL m ns"
  by (induction m) auto

lemma sl_wf_del:
  assumes wf: "sl_wf sl"
  shows "sl_wf (snd (skiplist_del k len sl))"
proof -
  from wf have srt: "sorted_wrt (<) (map sl_key (sl_nodes sl))"
    and lv: "\<forall>n\<in>set (sl_nodes sl). 1 \<le> sl_levels n" and c: "1 \<le> curMaxL sl"
    by (auto simp: sl_wf_def)
  show ?thesis
  proof (cases "lowerBound sl k")
    case Nil
    with wf show ?thesis by (simp add: del_miss)
  next
    case (Cons n after)
    then obtain p where p': "sl_nodes sl = p @ n # after" using lowerBound_Cons_decomp by blast
    from srt have srt': "sorted_wrt (<) (map sl_key (p @ n # after))" unfolding p' .
    from lv have lv': "\<forall>n\<in>set (p @ n # after). 1 \<le> sl_levels n" unfolding p' .
    show ?thesis
    proof (cases "sl_key n = k")
      case True
      from srt' lv' c show ?thesis
        by (auto simp: del_hit [OF Cons True p'] sl_wf_def sorted_wrt_append shrinkMaxL_pos)
    next
      case False
      with wf Cons show ?thesis by (simp add: del_miss)
    qed
  qed
qed

lemma sl_wf_reset: "sl_wf (skiplist_reset sl)"
  by (simp add: sl_wf_def skiplist_reset_def)

lemma sl_wf_new: "sl_wf (skiplist_new m)"
  by (simp add: sl_wf_def skiplist_new_def)

lemma search_map_of_aux:
  "sorted_wrt (<) (map sl_key ns) \<Longrightarrow>
   (case dropWhile (\<lambda>n. sl_key n < k) ns of [] \<Rightarrow> [] | n # a \<Rightarrow> if sl_key n = k then sl_val n else [])
   = (case map_of (map (\<lambda>n. (sl_key n, sl_val n)) ns) k of None \<Rightarrow> [] | Some v \<Rightarrow> v)"
proof (induction ns)
  case Nil
  then show ?case by simp
next
  case (Cons n ns)
  show ?case
  proof (cases "sl_key n < k")
    case True
    with Cons show ?thesis by auto
  next
    case False
    show ?thesis
    proof (cases "sl_key n = k")
      case True
      then show ?thesis by simp
    next
      case ne: False
      with False have "k < sl_key n" by simp
      with Cons(2) have "\<forall>m\<in>set ns. sl_key m \<noteq> k" by auto
      then have "map_of (map (\<lambda>n. (sl_key n, sl_val n)) ns) k = None"
        by (auto simp: map_of_eq_None_iff image_iff)
      with False ne show ?thesis by simp
    qed
  qed
qed

lemma skiplist_search_map_of:
  "sl_wf sl \<Longrightarrow> skiplist_search sl k = (case map_of (entries sl) k of None \<Rightarrow> [] | Some v \<Rightarrow> v)"
  using search_map_of_aux [of "sl_nodes sl" k]
  by (simp add: skiplist_search_def lowerBound_dropWhile entries_def sl_wf_def)

lemma map_of_entries_insert:
  assumes wf: "sl_wf sl"
  shows "map_of (entries (skiplist_insert draws k str sl)) = (map_of (entries sl))(k \<mapsto> str)"
proof -
  from sl_wf_decomp [OF wf, of k] obtain p where
    p: "sl_nodes sl = p @ lowerBound sl k" and pk: "\<forall>m\<in>set p. sl_key m < k" by blast
  let ?f = "\<lambda>n. (sl_key n, sl_val n)"
  from pk have "\<forall>m\<in>set p. sl_key m \<noteq> k" by auto
  then have notin: "map_of (map ?f p) k = None"
    by (auto simp: map_of_eq_None_iff image_iff)
  show ?thesis
  proof (cases "lowerBound sl k")
    case Nil
    with p have "sl_nodes sl = p" by simp
    with notin show ?thesis
      by (auto simp: ins_Nil [OF Nil] entries_def map_add_def fun_eq_iff split: option.splits)
  next
    case (Cons n after)
    with p have p': "sl_nodes sl = p @ n # after" by simp
    show ?thesis
    proof (cases "sl_key n = k")
      case True
      with notin show ?thesis
        by (auto simp: ins_hit [OF Cons True p'] p' entries_def map_add_def fun_eq_iff split: option.splits)
    next
      case False
      with notin show ?thesis
        by (auto simp: ins_miss [OF Cons False p'] p' entries_def map_add_def fun_eq_iff split: option.splits)
    qed
  qed
qed

lemma skiplist_search_insert:
  assumes wf: "sl_wf sl"
  shows "skiplist_search (skiplist_insert draws k str sl) k' = (if k' = k then str else skiplist_search sl k')"
  by (simp add: skiplist_search_map_of [OF sl_wf_insert [OF wf]] skiplist_search_map_of [OF wf]
                map_of_entries_insert [OF wf])

lemma skiplist_scan_empty:
  assumes wf: "sl_wf sl" and gt: "k2 < k1"
  shows "skiplist_scan sl k1 k2 = []"
proof (cases "lowerBound sl k1")
  case Nil
  then show ?thesis by (simp add: skiplist_scan_def)
next
  case (Cons n after)
  from sl_wf_decomp [OF wf, of k1] Cons have "k1 \<le> sl_key n" by auto
  with gt have "\<not> sl_key n \<le> k2" by simp
  with Cons show ?thesis by (simp add: skiplist_scan_def)
qed

subsection \<open>The byte counter\<close>

lemma lowerBound_new: "lowerBound (skiplist_new maxl) k = []"
proof -
  have "\<exists>p. sl_nodes (skiplist_new maxl) = p @ lowerBound (skiplist_new maxl) k"
    by (rule lowerBound_suffix)
  then show ?thesis by (simp add: skiplist_new_def)
qed

text \<open>
  Claim C5, as amended. Between operations (after any sequence of \<open>insert\<close>, \<open>del\<close>
  and \<open>reset\<close> on a new skip list) the byte counter that \<open>getBytes\<close> reports is the sum
  over the nodes of the list of \<open>12 + len(value)\<close> modulo \<open>2^32\<close>, the counter being a
  \<open>uint32_t\<close>; it is that sum itself as long as the sum is below \<open>2^32\<close>. When the key
  is in the list, \<open>insert\<close> changes the counter by \<open>new_len - old_len\<close> and \<open>del\<close>
  succeeds and subtracts \<open>12 + len(value)\<close>, both in 32-bit arithmetic.
\<close>

theorem memtable_bytes_accounting:
  assumes "sl = foldl memop_step (skiplist_new maxl) ops"
  shows "getBytes sl = of_nat (payload (sl_nodes sl)) \<and>
         (payload (sl_nodes sl) < 2 ^ 32 \<longrightarrow> unat (getBytes sl) = payload (sl_nodes sl)) \<and>
         (\<forall>n after. lowerBound sl k = n # after \<and> sl_key n = k \<longrightarrow>
            getBytes (skiplist_insert draws k str sl)
              = getBytes sl - of_nat (length (sl_val n)) + of_nat (length str) \<and>
            skiplist_search sl k = sl_val n \<and>
            fst (skiplist_del k len sl) \<and>
            getBytes (snd (skiplist_del k len sl))
              = getBytes sl - (12 + of_nat (length (sl_val n))))"
proof -
  have ok: "bytes_ok sl"
    unfolding assms by (rule bytes_ok_foldl) (rule bytes_ok_new)
  then have a: "getBytes sl = of_nat (payload (sl_nodes sl))"
    by (simp add: bytes_ok_def getBytes_def)
  have b: "payload (sl_nodes sl) < 2 ^ 32 \<longrightarrow> unat (getBytes sl) = payload (sl_nodes sl)"
  proof
    assume "payload (sl_nodes sl) < 2 ^ 32"
    then show "unat (getBytes sl) = payload (sl_nodes sl)"
      unfolding a by (simp add: unat_of_nat)
  qed
  have c: "getBytes (skiplist_insert draws k str sl)
              = getBytes sl - of_nat (length (sl_val n)) + of_nat (length str) \<and>
            skiplist_search sl k = sl_val n \<and>
            fst (skiplist_del k len sl) \<and>
            getBytes (snd (skiplist_del k len sl))
              = getBytes sl - (12 + of_nat (length (sl_val n)))"
    if h: "lowerBound sl k = n # after" "sl_key n = k" for n after
  proof -
    from h(1) obtain p where p: "sl_nodes sl = p @ n # after"
      using lowerBound_Cons_decomp by blast
    show ?thesis
      using h by (simp add: ins_hit [OF h p] del_hit [OF h p] getBytes_def skiplist_search_def)
  qed
  from a b c show ?thesis by blast
qed

theorem memtable_bytes_accounting_witness:
  "getBytes (foldl memop_step (skiplist_new 16) [Insert [True] 1 ''ab'', Insert [] 5 ''xyz'']) = 29 \<and>
   payload (sl_nodes (foldl memop_step (skiplist_new 16) [Insert [True] 1 ''ab'', Insert [] 5 ''xyz''])) = 29 \<and>
   lowerBound (foldl memop_step (skiplist_new 16) [Insert [True] 1 ''ab'', Insert [] 5 ''xyz'']) 5
     = [\<lparr>sl_key = 5, sl_val = ''xyz'', sl_levels = 1\<rparr>] \<and>
   getBytes (skiplist_insert [] 5 ''q'' (foldl memop_step (skiplist_new 16) [Insert [True] 1 ''ab'', Insert [] 5 ''xyz''])) = 27 \<and>
   getBytes (snd (skiplist_del 5 0 (foldl memop_step (skiplist_new 16) [Insert [True] 1 ''ab'', Insert [] 5 ''xyz'']))) = 14"
proof -
  let ?sl = "foldl memop_step (skiplist_new 16) [Insert [True] 1 ''ab'', Insert [] 5 ''xyz'']"
  have lb: "lowerBound ?sl 5 = [\<lparr>sl_key = 5, sl_val = ''xyz'', sl_levels = 1\<rparr>]"
    by code_simp
  have pl: "payload (sl_nodes ?sl) = 29" by code_simp
  note t = memtable_bytes_accounting [OF refl, of 16 "[Insert [True] 1 ''ab'', Insert [] 5 ''xyz'']" 5 "[]" "''q''" 0]
  from t have a: "getBytes ?sl = of_nat (payload (sl_nodes ?sl))" by blast
  from t lb have c: "getBytes (skiplist_insert [] 5 ''q'' ?sl) = getBytes ?sl - of_nat (length ''xyz'') + of_nat (length ''q'')"
     and d: "getBytes (snd (skiplist_del 5 0 ?sl)) = getBytes ?sl - (12 + of_nat (length ''xyz''))"
    by simp_all
  from a pl have a': "getBytes ?sl = 29" by simp
  from c a' have c': "getBytes (skiplist_insert [] 5 ''q'' ?sl) = 27" by simp
  from d a' have d': "getBytes (snd (skiplist_del 5 0 ?sl)) = 14" by simp
  from lb pl a' c' d' show ?thesis by blast
qed

text \<open>
  Claim C5 as stated, refuted. One \<open>insert\<close> of a value of \<open>2^32 - 12\<close> bytes into a new
  skip list: the sum over the entries of \<open>12 + len(value)\<close> is \<open>2^32\<close>, and the counter
  reports 0.
\<close>

theorem memtable_bytes_counterexample:
  "unat (getBytes (foldl memop_step (skiplist_new 16) [Insert [] 1 (replicate (2 ^ 32 - 12) CHR ''a'')])) = 0 \<and>
   payload (sl_nodes (foldl memop_step (skiplist_new 16) [Insert [] 1 (replicate (2 ^ 32 - 12) CHR ''a'')])) = 2 ^ 32"
  by (simp add: ins_Nil [OF lowerBound_new] getBytes_def) (simp add: skiplist_new_def)

section \<open>Sorted runs\<close>

text \<open>
  Modelled from the spec: the classes \<open>sstablehead\<close> and \<open>sstable\<close> (sstablehead.h,
  sstable.h and their .cpp files), the struct \<open>Index\<close> and the global counter \<open>TIME\<close> are not
  among the sources at hand; kvstore.cc only calls them. From the spec (section 4.1): a run
  has a header with its timestamp, entry count, minimum and maximum key (32 bytes), a Bloom
  filter (10240 bytes), one index entry \<open>(key: u64, offset: u32)\<close> per record (12 bytes
  each) and the packed values; a lookup returns nothing when the Bloom filter rejects the key
  and searches the index otherwise (the filter has no false negative, so it is left out).
  From the callers in kvstore.cc: the offset of an index entry is the offset just past the
  value of the entry (\<open>scan\<close> reads value \<open>i\<close> between \<open>getOffset(i - 1)\<close> and
  \<open>getOffset(i)\<close>), \<open>getOffset(-1)\<close> is 0, \<open>searchOffset\<close> returns the offset where the value
  starts, as an \<open>int\<close>, and stores its length, or returns -1, \<open>search\<close> returns the position of a key or -1,
  and \<open>lowerBound\<close> is the position of the first key that is not smaller.

  A cached head and the file it names are created together (\<open>putFile\<close> with \<open>addsstable\<close>)
  and removed together (\<open>delsstable\<close>), so a run of the index is kept with its values: the
  file system is taken to be reliable and used by this process only. A file name is the level
  directory and the timestamp of \<open>dir/level-L/T.sst\<close>.
\<close>

record Index =
  ikey :: "64 word"
  offset :: "32 word"

record sstablehead =
  filename :: "(nat \<times> 64 word) option"
  ss_time :: "64 word"
  minV :: "64 word"
  maxV :: "64 word"
  ss_index :: "Index list"

record sstable = sstablehead +
  ss_data :: "string list"
  ss_bytes :: "32 word"

definition getCnt_ss :: "'a sstablehead_scheme \<Rightarrow> nat" where
  "getCnt_ss h = length (ss_index h)"

definition getKey :: "'a sstablehead_scheme \<Rightarrow> nat \<Rightarrow> 64 word" where
  "getKey h i = ikey (ss_index h ! i)"

text \<open>\<open>getOffset(index)\<close>, with \<open>getOffset(-1) = 0\<close>.\<close>

definition getOffset :: "'a sstablehead_scheme \<Rightarrow> int \<Rightarrow> 32 word" where
  "getOffset h i = (if i < 0 then 0 else offset (ss_index h ! nat i))"

definition lowerBound_ss :: "'a sstablehead_scheme \<Rightarrow> 64 word \<Rightarrow> nat" where
  "lowerBound_ss h k = length (takeWhile (\<lambda>e. ikey e < k) (ss_index h))"

definition search_ss :: "'a sstablehead_scheme \<Rightarrow> 64 word \<Rightarrow> int" where
  "search_ss h k =
     (let i = lowerBound_ss h k
      in if i < getCnt_ss h \<and> getKey h i = k then int i else - 1)"

text \<open>
  \<open>int searchOffset(key, len)\<close>: the result and the value of \<open>len\<close> after the call. The
  offset is a \<open>uint32_t\<close> returned as an \<open>int\<close>. When the result is -1 no caller reads
  \<open>len\<close>.
\<close>

definition searchOffset :: "'a sstablehead_scheme \<Rightarrow> 64 word \<Rightarrow> int \<times> 32 word" where
  "searchOffset h k =
     (let i = search_ss h k
      in if i < 0 then (- 1, 0)
         else (sint (getOffset h (i - 1)), getOffset h i - getOffset h (i - 1)))"

definition getData :: "sstable \<Rightarrow> nat \<Rightarrow> string" where
  "getData ss i = ss_data ss ! i"

definition getIndexById :: "sstable \<Rightarrow> nat \<Rightarrow> Index" where
  "getIndexById ss i = ss_index ss ! i"

text \<open>\<open>reset\<close>: an empty run; its size is that of the header and the Bloom filter.\<close>

definition sstable_reset :: "sstable \<Rightarrow> sstable" where
  "sstable_reset ss = ss\<lparr>minV := - 1, maxV := 0, ss_index := [], ss_data := [], ss_bytes := 10240 + 32\<rparr>"

definition sstable_empty :: sstable where
  "sstable_empty = \<lparr>filename = None, ss_time = 0, minV = - 1, maxV = 0, ss_index = [],
                     ss_data = [], ss_bytes = 10240 + 32\<rparr>"

text \<open>\<open>insert(key, value)\<close> appends a record: 12 bytes of index and the value.\<close>

definition sstable_insert :: "64 word \<Rightarrow> string \<Rightarrow> sstable \<Rightarrow> sstable" where
  "sstable_insert k v ss =
     ss\<lparr>minV := min k (minV ss), maxV := max k (maxV ss),
        ss_index := ss_index ss @ [\<lparr>ikey = k, offset = getOffset ss (int (getCnt_ss ss) - 1) + of_nat (length v)\<rparr>],
        ss_data := ss_data ss @ [v],
        ss_bytes := ss_bytes ss + 12 + of_nat (length v)\<rparr>"

text \<open>
  \<open>sstable(skiplist *)\<close>: the records of the memtable in key order, under a fresh timestamp
  (the spec, 4.3: "freeze memtable into a SortedRun with a fresh monotonic timestamp"; 5:
  the counter is "incremented on memtable flush"). The result is the run and the new value
  of \<open>TIME\<close>.
\<close>

definition sstable_of_skiplist :: "64 word \<Rightarrow> skiplist \<Rightarrow> sstable \<times> 64 word" where
  "sstable_of_skiplist TIME sl =
     (foldl (\<lambda>ss n. sstable_insert (sl_key n) (sl_val n) ss)
            (sstable_empty\<lparr>ss_time := TIME + 1\<rparr>) (sl_nodes sl),
      TIME + 1)"

text \<open>
  The bytes of the file of a run. The header, the Bloom filter and the index come first;
  no caller of \<open>fetchString\<close> reads them, so only their length is modelled.
\<close>

definition file_image :: "sstable \<Rightarrow> string" where
  "file_image ss = replicate (32 + 10240 + 12 * getCnt_ss ss) (CHR 0x00) @ concat (ss_data ss)"

section \<open>The store: state and environment\<close>

text \<open>
  A \<open>std::vector<float>\<close> is the list of the IEEE-754 bit patterns of its components: the
  store copies vectors, compares their components with \<open>std::numeric_limits<float>::max()\<close>
  (bit pattern \<open>0x7F7FFFFF\<close>, equal as a float exactly when equal as bits) and writes them
  to the embedding file. Arithmetic on floats is not modelled: the embedding model
  (\<open>embedding_single\<close>, an external collaborator), the cosine distance
  (\<open>calculate_distance\<close>) and the comparison within a tolerance
  (\<open>compare_float_vectors\<close>) are parameters, and every result holds for all of them.
  Distances are real numbers.
\<close>

type_synonym vec = "32 word list"

definition FLT_MAX_bits :: "32 word" where
  "FLT_MAX_bits = 0x7F7FFFFF"

definition FLT_MAX :: real where
  "FLT_MAX = 340282346638528859811704183484516925440"

record env =
  embedding_single :: "string \<Rightarrow> vec"
  calculate_distance :: "vec \<Rightarrow> vec \<Rightarrow> real"
  compare_float_vectors :: "vec \<Rightarrow> vec \<Rightarrow> bool"

record HNSWNode =
  hkey :: "64 word"
  hlabel :: nat
  max_level :: int
  connections :: "nat list list"
  deleted :: bool

text \<open>
  The members of \<open>KVStore\<close>, their names without the underscore at the end; \<open>mem\<close> is
  the memtable \<open>s\<close>. \<open>TIME\<close> is the global timestamp
  counter, \<open>level_dirs\<close> the levels whose directory \<open>level-L\<close> exists, and \<open>embedding_file\<close>
  the content of \<open>embeddings.bin\<close> in units of four bytes (\<open>None\<close>: there is no such file).
  \<open>hnsw_nodes\<close> is a \<open>std::map\<close> that the search iterates: an association list in the order
  of the labels.
\<close>

record kvstore =
  mem :: skiplist
  sstableIndex :: "nat \<Rightarrow> sstable list"
  totalLevel :: int
  TIME :: "64 word"
  level_dirs :: "nat set"
  embedding_file :: "32 word list option"
  embeddings :: "64 word \<rightharpoonup> vec"
  hnsw_nodes :: "(nat \<times> HNSWNode) list"
  key_to_label :: "64 word \<rightharpoonup> nat"
  label_to_key :: "nat \<rightharpoonup> 64 word"
  next_label :: nat
  entry_point_label :: nat
  current_max_level :: int
  embedding_dimension :: int
  hnsw_vectors_to_persist_as_deleted :: "vec list"
  loaded_deleted_vectors :: "vec list"

definition DEL :: string where
  "DEL = ''~DELETED~''"

definition MAXSIZE :: "32 word" where
  "MAXSIZE = 2 * 1024 * 1024"

definition HNSW_M :: nat where "HNSW_M = 10"
definition HNSW_M_max :: nat where "HNSW_M_max = 20"
definition HNSW_efConstruction :: nat where "HNSW_efConstruction = 100"

text \<open>\<open>std::map::operator[]\<close>: a key that is missing is inserted with the default value.\<close>

definition index_default :: "('k \<rightharpoonup> 'v) \<Rightarrow> 'k \<Rightarrow> 'v \<Rightarrow> 'v \<times> ('k \<rightharpoonup> 'v)" where
  "index_default m k d = (case m k of Some v \<Rightarrow> (v, m) | None \<Rightarrow> (d, m(k \<mapsto> d)))"

text \<open>Insertion into a \<open>std::map\<close> kept as a list in key order.\<close>

fun map_upd :: "'k::linorder \<Rightarrow> 'v \<Rightarrow> ('k \<times> 'v) list \<Rightarrow> ('k \<times> 'v) list" where
  "map_upd k v [] = [(k, v)]"
| "map_upd k v ((a, b) # al) =
     (if k < a then (k, v) # (a, b) # al
      else if k = a then (k, v) # al
      else (a, b) # map_upd k v al)"

text \<open>\<open>std::vector::resize\<close> on the list of the connection lists.\<close>

definition resize :: "nat \<Rightarrow> 'a list list \<Rightarrow> 'a list list" where
  "resize n xs = take n xs @ replicate (n - length xs) []"

section \<open>std::priority_queue\<close>

text \<open>
  A \<open>std::priority_queue\<close> is its underlying \<open>std::vector\<close>, kept as a binary heap by
  \<open>std::push_heap\<close> and \<open>std::pop_heap\<close>. The two are modelled as the GNU C++ library
  implements them (\<open>__push_heap\<close> and \<open>__adjust_heap\<close> of stl_heap.h); which of several
  elements of equal priority is on top follows from that. \<open>cmpf a b\<close> is the comparator:
  \<open>b\<close> goes before \<open>a\<close>. \<open>top()\<close> is the first element of the vector.
\<close>

function push_heap_up :: "('a \<Rightarrow> 'a \<Rightarrow> bool) \<Rightarrow> 'a list \<Rightarrow> nat \<Rightarrow> nat \<Rightarrow> 'a \<Rightarrow> 'a list" where
  "push_heap_up cmpf v holeIndex topIndex x =
     (if topIndex < holeIndex \<and> cmpf (v ! ((holeIndex - 1) div 2)) x
      then push_heap_up cmpf (v[holeIndex := v ! ((holeIndex - 1) div 2)]) ((holeIndex - 1) div 2) topIndex x
      else v[holeIndex := x])"
  by pat_completeness auto
termination
  by (relation "measure (\<lambda>(cmpf, v, holeIndex, topIndex, x). holeIndex)") auto

declare push_heap_up.simps [simp del]

text \<open>The loop of \<open>__adjust_heap\<close>: the hole moves down to the better child.\<close>

function adjust_heap_down :: "('a \<Rightarrow> 'a \<Rightarrow> bool) \<Rightarrow> 'a list \<Rightarrow> nat \<Rightarrow> nat \<Rightarrow> 'a list \<times> nat" where
  "adjust_heap_down cmpf v holeIndex len =
     (if holeIndex < (len - 1) div 2
      then (let secondChild = 2 * (holeIndex + 1);
                secondChild = (if cmpf (v ! secondChild) (v ! (secondChild - 1))
                               then secondChild - 1 else secondChild)
            in adjust_heap_down cmpf (v[holeIndex := v ! secondChild]) secondChild len)
      else (v, holeIndex))"
  by pat_completeness auto
termination
  by (relation "measure (\<lambda>(cmpf, v, holeIndex, len). len - holeIndex)") (auto simp: Let_def)

declare adjust_heap_down.simps [simp del]

definition adjust_heap :: "('a \<Rightarrow> 'a \<Rightarrow> bool) \<Rightarrow> 'a list \<Rightarrow> nat \<Rightarrow> nat \<Rightarrow> 'a \<Rightarrow> 'a list" where
  "adjust_heap cmpf v holeIndex len x =
     (let (v1, hole1) = adjust_heap_down cmpf v holeIndex len;
          (v2, hole2) = (if even len \<and> 2 \<le> len \<and> hole1 = (len - 2) div 2
                         then (v1[hole1 := v1 ! (2 * (hole1 + 1) - 1)], 2 * (hole1 + 1) - 1)
                         else (v1, hole1))
      in push_heap_up cmpf v2 hole2 holeIndex x)"

text \<open>\<open>push(x)\<close>: \<open>push_back\<close>, then \<open>push_heap\<close>.\<close>

definition pq_push :: "('a \<Rightarrow> 'a \<Rightarrow> bool) \<Rightarrow> 'a \<Rightarrow> 'a list \<Rightarrow> 'a list" where
  "pq_push cmpf x v = push_heap_up cmpf (v @ [x]) (length v) 0 x"

text \<open>\<open>pop()\<close>: \<open>pop_heap\<close>, then \<open>pop_back\<close>. On an empty queue the code is undefined; the
  model leaves the queue empty.\<close>

definition pq_pop :: "('a \<Rightarrow> 'a \<Rightarrow> bool) \<Rightarrow> 'a list \<Rightarrow> 'a list" where
  "pq_pop cmpf v =
     (if length v \<le> 1 then []
      else butlast (adjust_heap cmpf (v[length v - 1 := v ! 0]) 0 (length v - 1) (v ! (length v - 1))))"


lemma length_push_heap_up [simp]: "length (push_heap_up cmpf v h t x) = length v"
  by (induction cmpf v h t x rule: push_heap_up.induct) (subst push_heap_up.simps, simp)

lemma mset_hole_step:
  assumes "h < length v" "p < length v" "p \<noteq> h"
  shows "mset (v[h := v ! p, p := x]) = mset (v[h := x])"
proof -
  let ?w = "v[h := x]"
  have e: "v[h := v ! p, p := x] = ?w[h := ?w ! p, p := ?w ! h]"
    using assms by simp
  have "mset (?w[h := ?w ! p, p := ?w ! h]) = mset ?w"
    using assms mset_swap [of p ?w h] by simp
  with e show ?thesis by simp
qed

lemma mset_push_heap_up:
  "h < length v \<Longrightarrow> mset (push_heap_up cmpf v h t x) = mset (v[h := x])"
proof (induction cmpf v h t x rule: push_heap_up.induct)
  case (1 cmpf v h t x)
  show ?case
  proof (cases "t < h \<and> cmpf (v ! ((h - 1) div 2)) x")
    case True
    let ?p = "(h - 1) div 2"
    from True have ph: "?p < h" by auto
    with 1(2) have pl: "?p < length v" by simp
    have "mset (push_heap_up cmpf v h t x) = mset (push_heap_up cmpf (v[h := v ! ?p]) ?p t x)"
      using True by (subst push_heap_up.simps) simp
    also have "\<dots> = mset (v[h := v ! ?p, ?p := x])"
      using 1(1) [OF True] pl by simp
    also have "\<dots> = mset (v[h := x])"
      using mset_hole_step [OF 1(2) pl] ph by simp
    finally show ?thesis .
  next
    case False
    then show ?thesis by (subst push_heap_up.simps) auto
  qed
qed

lemma push_heap_up_above:
  "h < i \<Longrightarrow> push_heap_up cmpf v h t x ! i = v ! i"
proof (induction cmpf v h t x rule: push_heap_up.induct)
  case (1 cmpf v h t x)
  show ?case
  proof (cases "t < h \<and> cmpf (v ! ((h - 1) div 2)) x")
    case True
    let ?p = "(h - 1) div 2"
    from True have ph: "?p < h" by auto
    have "push_heap_up cmpf v h t x ! i = push_heap_up cmpf (v[h := v ! ?p]) ?p t x ! i"
      using True by (subst push_heap_up.simps) simp
    also have "\<dots> = (v[h := v ! ?p]) ! i"
      using 1(1) [OF True] ph 1(2) by simp
    also have "\<dots> = v ! i" using 1(2) by simp
    finally show ?thesis .
  next
    case False
    then show ?thesis using 1(2) by (subst push_heap_up.simps) auto
  qed
qed

lemma adjust_heap_down_props:
  assumes "adjust_heap_down cmpf v h len = (v1, h1)" "h < len" "len \<le> length v"
  shows "length v1 = length v \<and> h1 < len \<and> mset (v1[h1 := x]) = mset (v[h := x]) \<and>
         (\<forall>i\<ge>len. v1 ! i = v ! i)"
  using assms
proof (induction cmpf v h len arbitrary: v1 h1 rule: adjust_heap_down.induct)
  case (1 cmpf v h len)
  show ?case
  proof (cases "h < (len - 1) div 2")
    case True
    define sc where "sc = 2 * (h + 1)"
    define sc' where "sc' = (if cmpf (v ! sc) (v ! (sc - 1)) then sc - 1 else sc)"
    from True have scl: "sc < len" unfolding sc_def by auto
    have sc'l: "sc' < len" "h < sc'" using scl unfolding sc'_def sc_def by auto
    have st: "adjust_heap_down cmpf v h len = adjust_heap_down cmpf (v[h := v ! sc']) sc' len"
      using True by (subst adjust_heap_down.simps) (simp add: Let_def sc_def sc'_def)
    with 1(2) have r: "adjust_heap_down cmpf (v[h := v ! sc']) sc' len = (v1, h1)" by simp
    have ih: "length v1 = length (v[h := v ! sc']) \<and> h1 < len \<and>
              mset (v1[h1 := x]) = mset (v[h := v ! sc', sc' := x]) \<and>
              (\<forall>i\<ge>len. v1 ! i = (v[h := v ! sc']) ! i)"
      using 1(1) [OF True sc_def sc'_def r] sc'l 1(4) by simp
    have "mset (v[h := v ! sc', sc' := x]) = mset (v[h := x])"
      using mset_hole_step [of h v sc' x] sc'l 1(3,4) by simp
    moreover have "\<forall>i\<ge>len. (v[h := v ! sc']) ! i = v ! i" using 1(3) by simp
    ultimately show ?thesis using ih by simp
  next
    case False
    with 1(2) have "v1 = v" "h1 = h" by (subst (asm) adjust_heap_down.simps, simp)+
    with 1(3) show ?thesis by simp
  qed
qed

lemma adjust_heap_props:
  assumes "h < len" "len \<le> length v"
  shows "length (adjust_heap cmpf v h len x) = length v \<and>
         mset (adjust_heap cmpf v h len x) = mset (v[h := x]) \<and>
         (\<forall>i\<ge>len. adjust_heap cmpf v h len x ! i = v ! i)"
proof -
  obtain v1 h1 where d: "adjust_heap_down cmpf v h len = (v1, h1)"
    by (cases "adjust_heap_down cmpf v h len") auto
  from adjust_heap_down_props [OF d assms, of x]
  have p: "length v1 = length v" "h1 < len" "mset (v1[h1 := x]) = mset (v[h := x])"
    "\<forall>i\<ge>len. v1 ! i = v ! i" by auto
  show ?thesis
  proof (cases "even len \<and> 2 \<le> len \<and> h1 = (len - 2) div 2")
    case True
    let ?c = "2 * (h1 + 1) - 1"
    from True have c: "?c = len - 1" "?c < len" "h1 < ?c" by (auto elim!: evenE)
    have e: "adjust_heap cmpf v h len x = push_heap_up cmpf (v1[h1 := v1 ! ?c]) ?c h x"
      using True d by (simp add: adjust_heap_def)
    have l: "?c < length (v1[h1 := v1 ! ?c])" using c p assms by simp
    have "mset (v1[h1 := v1 ! ?c, ?c := x]) = mset (v1[h1 := x])"
      using mset_hole_step [of h1 v1 ?c x] c p assms by simp
    then have m: "mset (adjust_heap cmpf v h len x) = mset (v[h := x])"
      using e mset_push_heap_up [OF l, of cmpf h x] p by simp
    have "\<forall>i\<ge>len. adjust_heap cmpf v h len x ! i = v ! i"
      using e c p by (simp add: push_heap_up_above)
    with m e p show ?thesis by simp
  next
    case False
    then have e: "adjust_heap cmpf v h len x = push_heap_up cmpf v1 h1 h x"
      using d by (auto simp: adjust_heap_def)
    have l: "h1 < length v1" using p assms by simp
    have "\<forall>i\<ge>len. adjust_heap cmpf v h len x ! i = v ! i"
      using e p by (simp add: push_heap_up_above)
    then show ?thesis using e mset_push_heap_up [OF l, of cmpf h x] p by simp
  qed
qed

lemma length_pq_push [simp]: "length (pq_push cmpf x v) = Suc (length v)"
  by (simp add: pq_push_def)

lemma mset_pq_push: "mset (pq_push cmpf x v) = add_mset x (mset v)"
  by (simp add: pq_push_def mset_push_heap_up)

lemma pq_push_not_Nil [simp]: "pq_push cmpf x v \<noteq> []"
proof
  assume "pq_push cmpf x v = []"
  then have "length (pq_push cmpf x v) = 0" by simp
  then show False by simp
qed

lemma length_pq_pop [simp]: "length (pq_pop cmpf v) = length v - 1"
  using adjust_heap_props [of 0 "length v - 1" "v[length v - 1 := v ! 0]" cmpf "v ! (length v - 1)"]
  by (simp add: pq_pop_def)

lemma mset_pq_pop_nth:
  assumes "w \<noteq> []"
  shows "add_mset (w ! 0) (mset (pq_pop cmpf w)) = mset w"
proof (cases "length w \<le> 1")
  case True
  with assms obtain a where "w = [a]" by (cases w) auto
  then show ?thesis by (simp add: pq_pop_def)
next
  case False
  define n where "n = length w - 1"
  define u where "u = w[n := w ! 0]"
  define r where "r = adjust_heap cmpf u 0 n (w ! n)"
  define b where "b = butlast r"
  from False have n: "0 < n" "n < length w" "length u = length w" by (auto simp: n_def u_def)
  from adjust_heap_props [of 0 n u cmpf "w ! n"] n
  have p: "length r = length w" "mset r = mset (u[0 := w ! n])" "r ! n = u ! n"
    by (auto simp: r_def)
  have "mset (u[0 := w ! n]) = mset w"
    using mset_swap [of 0 w n] n assms by (simp add: u_def list_update_swap)
  with p have m: "mset r = mset w" by simp
  have rn: "r \<noteq> []" using p(1) n by auto
  have "last r = w ! 0" using p(1,3) rn n by (simp add: last_conv_nth n_def u_def)
  with rn have "r = b @ [w ! 0]" unfolding b_def using append_butlast_last_id [of r] by simp
  then have "mset r = add_mset (w ! 0) (mset b)" by simp
  moreover have "pq_pop cmpf w = b" using False by (simp add: pq_pop_def r_def u_def n_def b_def)
  ultimately show ?thesis using m by simp
qed

lemma mset_pq_pop: "add_mset x (mset (pq_pop cmpf (x # v))) = mset (x # v)"
  using mset_pq_pop_nth [of "x # v" cmpf] by simp

lemma sum_list_mset_cong:
  assumes "mset xs = mset ys"
  shows "sum_list (map f xs) = sum_list (map (f :: 'a \<Rightarrow> nat) ys)"
proof -
  have "sum_mset (mset (map f xs)) = sum_mset (mset (map f ys))"
    using assms by (simp only: mset_map)
  then show ?thesis by (simp only: sum_mset_sum_list)
qed

lemma sum_list_pq_push [simp]:
  "sum_list (map f (pq_push cmpf x v)) = f x + sum_list (map (f :: 'a \<Rightarrow> nat) v)"
  using sum_list_mset_cong [of "pq_push cmpf x v" "x # v" f] by (simp add: mset_pq_push)

lemma sum_list_pq_pop [simp]:
  "sum_list (map f (pq_pop cmpf (x # v))) = sum_list (map (f :: 'a \<Rightarrow> nat) v)"
  using sum_list_mset_cong [of "x # pq_pop cmpf (x # v)" "x # v" f] mset_pq_pop [of x cmpf v] by simp

lemma set_pq_push [simp]: "set (pq_push cmpf x v) = insert x (set v)"
proof -
  have "set_mset (mset (pq_push cmpf x v)) = set_mset (add_mset x (mset v))"
    by (simp only: mset_pq_push)
  then show ?thesis by (simp only: set_mset_mset set_mset_add_mset_insert)
qed

lemma set_pq_pop: "set (pq_pop cmpf v) \<subseteq> set v"
proof (cases v)
  case Nil
  then show ?thesis by (simp add: pq_pop_def)
next
  case (Cons x xs)
  have "set_mset (add_mset x (mset (pq_pop cmpf (x # xs)))) = set_mset (mset (x # xs))"
    by (simp only: mset_pq_pop)
  then have "insert x (set (pq_pop cmpf (x # xs))) = set (x # xs)"
    by (simp only: set_mset_mset set_mset_add_mset_insert)
  with Cons show ?thesis by auto
qed


text \<open>
  The loop \<open>while (!q.empty()) { ... q.top() ...; q.pop(); }\<close>: the elements in the order
  they are popped.
\<close>

function pq_drain :: "('a \<Rightarrow> 'a \<Rightarrow> bool) \<Rightarrow> 'a list \<Rightarrow> 'a list" where
  "pq_drain cmpf v = (case v of [] \<Rightarrow> [] | x # _ \<Rightarrow> x # pq_drain cmpf (pq_pop cmpf v))"
  by pat_completeness auto
termination
  by (relation "measure (\<lambda>(cmpf, v). length v)") auto

declare pq_drain.simps [simp del]

lemma pq_drain_Nil [simp]: "pq_drain cmpf [] = []"
  by (subst pq_drain.simps) simp

lemma pq_drain_Cons: "pq_drain cmpf (x # v) = x # pq_drain cmpf (pq_pop cmpf (x # v))"
  by (subst pq_drain.simps) simp

lemma length_pq_drain [simp]: "length (pq_drain cmpf v) = length v"
proof (induction cmpf v rule: pq_drain.induct)
  case (1 cmpf v)
  show ?case
  proof (cases v)
    case Nil
    then show ?thesis by simp
  next
    case (Cons x xs)
    with 1 [OF Cons] show ?thesis by (simp add: pq_drain_Cons)
  qed
qed

lemma length_funpow_pq_pop [simp]: "length ((pq_pop cmpf ^^ n) v) = length v - n"
  by (induction n) simp_all

lemma pq_push_Nil: "pq_push cmpf x [] = [x]"
  by (simp add: pq_push_def push_heap_up.simps)

lemma pq_pop_single: "pq_pop cmpf [x] = []"
  by (simp add: pq_pop_def)

section \<open>HNSW index\<close>

text \<open>
  The heaps of the index hold pairs of a distance and a label. With \<open>MinHNSWHeapComparer\<close>
  the smallest distance is on top, with \<open>MaxHNSWHeapComparer\<close> the largest.
\<close>

type_synonym heap_item = "real \<times> nat"

definition MinHNSWHeapComparer :: "heap_item \<Rightarrow> heap_item \<Rightarrow> bool" where
  "MinHNSWHeapComparer a b \<longleftrightarrow> fst b < fst a"

definition MaxHNSWHeapComparer :: "heap_item \<Rightarrow> heap_item \<Rightarrow> bool" where
  "MaxHNSWHeapComparer a b \<longleftrightarrow> fst a < fst b"

text \<open>The fallback of \<open>search_layer_internal\<close> when the entry point is not valid.\<close>

definition valid_entry :: "kvstore \<Rightarrow> nat \<Rightarrow> nat \<Rightarrow> bool" where
  "valid_entry st target_level l =
     (case map_of (hnsw_nodes st) l of
        None \<Rightarrow> False
      | Some n \<Rightarrow> \<not> deleted n \<and> int target_level \<le> max_level n)"

definition fallback_entry :: "kvstore \<Rightarrow> nat \<Rightarrow> nat option" where
  "fallback_entry st target_level =
     (if valid_entry st target_level 0 then Some 0
      else map_option fst
             (find (\<lambda>(l, n). \<not> deleted n \<and> int target_level \<le> max_level n) (hnsw_nodes st)))"

text \<open>
  The checks on a neighbour before its distance is computed: the node exists, is not
  deleted, its label has a key and the key has an embedding.
\<close>

definition neighbor_vector :: "kvstore \<Rightarrow> nat \<Rightarrow> vec option" where
  "neighbor_vector st neighbor_label =
     (case map_of (hnsw_nodes st) neighbor_label of
        None \<Rightarrow> None
      | Some nb \<Rightarrow>
          if deleted nb then None
          else (case label_to_key st neighbor_label of
                  None \<Rightarrow> None
                | Some neighbor_key \<Rightarrow> embeddings st neighbor_key))"

text \<open>One neighbour of the node being explored (the body of the inner \<open>for\<close> loop).\<close>

fun visit_neighbor ::
  "env \<Rightarrow> kvstore \<Rightarrow> vec \<Rightarrow> nat \<Rightarrow> heap_item list \<times> heap_item list \<times> nat set \<Rightarrow> nat
   \<Rightarrow> heap_item list \<times> heap_item list \<times> nat set" where
  "visit_neighbor E st query_vec ef (candidates, results, visited) neighbor_label =
     (if neighbor_label \<in> visited then (candidates, results, visited)
      else (case neighbor_vector st neighbor_label of
              None \<Rightarrow> (candidates, results, insert neighbor_label visited)
            | Some v \<Rightarrow>
                (let neighbor_dist = calculate_distance E query_vec v;
                     current_furthest = (case results of [] \<Rightarrow> FLT_MAX | r # _ \<Rightarrow> fst r)
                 in if length results < ef \<or> neighbor_dist < current_furthest
                    then (pq_push MinHNSWHeapComparer (neighbor_dist, neighbor_label) candidates,
                          (let results' = pq_push MaxHNSWHeapComparer (neighbor_dist, neighbor_label) results
                           in if ef < length results' then pq_pop MaxHNSWHeapComparer results' else results'),
                          insert neighbor_label visited)
                    else (candidates, results, insert neighbor_label visited))))"

text \<open>
  All labels that occur in a connection list of the level: the search can visit no other
  label than these and its entry point.
\<close>

definition level_labels :: "kvstore \<Rightarrow> nat \<Rightarrow> nat set" where
  "level_labels st target_level =
     (\<Union>(l, n)\<in>set (hnsw_nodes st).
        if target_level < length (connections n) then set (connections n ! target_level) else {})"

lemma finite_level_labels: "finite (level_labels st lvl)"
  by (auto simp: level_labels_def)

lemma visit_neighbor_visited:
  "visit_neighbor E st q ef (c, r, v) nb = (c', r', v') \<Longrightarrow> v' = insert nb v"
  by (auto simp: Let_def split: if_splits option.splits)

lemma visit_neighbor_seen:
  "nb \<in> v \<Longrightarrow> visit_neighbor E st q ef (c, r, v) nb = (c, r, v)"
  by simp

declare visit_neighbor.simps [simp del]

lemma foldl_visit_neighbor:
  "foldl (visit_neighbor E st q ef) (c, r, v) nbs = (c', r', v') \<Longrightarrow>
   v' = v \<union> set nbs \<and> (set nbs \<subseteq> v \<longrightarrow> c' = c \<and> r' = r)"
proof (induction nbs arbitrary: c r v)
  case Nil
  then show ?case by simp
next
  case (Cons nb nbs)
  obtain c1 r1 v1 where s1: "visit_neighbor E st q ef (c, r, v) nb = (c1, r1, v1)"
    by (cases "visit_neighbor E st q ef (c, r, v) nb") auto
  from s1 have v1: "v1 = insert nb v" by (rule visit_neighbor_visited)
  from Cons.prems s1 have "foldl (visit_neighbor E st q ef) (c1, r1, v1) nbs = (c', r', v')"
    by simp
  from Cons.IH [OF this] have ih: "v' = v1 \<union> set nbs" "set nbs \<subseteq> v1 \<longrightarrow> c' = c1 \<and> r' = r1"
    by auto
  have a: "v' = v \<union> set (nb # nbs)" using ih(1) v1 by auto
  have b: "c' = c \<and> r' = r" if sub: "set (nb # nbs) \<subseteq> v"
  proof -
    from sub have "nb \<in> v" by simp
    with s1 have "c1 = c" "r1 = r" "v1 = v" by (simp_all add: visit_neighbor_seen)
    with ih(2) sub show ?thesis by auto
  qed
  from a b show ?case by blast
qed

text \<open>
  The \<open>while (!candidates.empty())\<close> loop of \<open>search_layer_internal\<close>; the result is the
  heap \<open>results\<close>.
\<close>

function search_loop ::
  "env \<Rightarrow> kvstore \<Rightarrow> vec \<Rightarrow> nat \<Rightarrow> nat \<Rightarrow> bool \<Rightarrow> heap_item list \<times> heap_item list \<times> nat set
   \<Rightarrow> heap_item list" where
  "search_loop E st query_vec target_level ef limited_search (candidates, results, visited) =
     (case candidates of
        [] \<Rightarrow> results
      | current_candidate # _ \<Rightarrow>
          (let rest = pq_pop MinHNSWHeapComparer candidates;
               furthest_result_dist = (case results of [] \<Rightarrow> FLT_MAX | r # _ \<Rightarrow> fst r)
           in if furthest_result_dist < fst current_candidate \<and> (\<not> limited_search \<or> ef \<le> length results)
              then results
              else (case map_of (hnsw_nodes st) (snd current_candidate) of
                      None \<Rightarrow> search_loop E st query_vec target_level ef limited_search (rest, results, visited)
                    | Some current_node \<Rightarrow>
                        if target_level < length (connections current_node)
                        then search_loop E st query_vec target_level ef limited_search
                               (foldl (visit_neighbor E st query_vec ef) (rest, results, visited)
                                      (connections current_node ! target_level))
                        else search_loop E st query_vec target_level ef limited_search
                               (rest, results, visited))))"
  by pat_completeness auto

lemma level_labels_mem:
  "map_of (hnsw_nodes st) l = Some n \<Longrightarrow> lvl < length (connections n) \<Longrightarrow>
   set (connections n ! lvl) \<subseteq> level_labels st lvl"
  by (force simp: level_labels_def dest: map_of_SomeD)

lemma search_loop_measure:
  assumes f: "foldl (visit_neighbor E st q ef) (c, r, v) nbs = (c', r', v')"
    and sub: "set nbs \<subseteq> level_labels st lvl"
  shows "card (level_labels st lvl - v') < card (level_labels st lvl - v) \<or>
         (card (level_labels st lvl - v') = card (level_labels st lvl - v) \<and> length c' = length c)"
proof -
  from foldl_visit_neighbor [OF f] have v': "v' = v \<union> set nbs"
    and same: "set nbs \<subseteq> v \<longrightarrow> c' = c \<and> r' = r" by auto
  show ?thesis
  proof (cases "set nbs \<subseteq> v")
    case True
    with v' same show ?thesis by (auto simp: Un_absorb2)
  next
    case False
    then obtain x where x: "x \<in> set nbs" "x \<notin> v" by auto
    with sub have "x \<in> level_labels st lvl - v" by auto
    moreover from v' x have "x \<notin> level_labels st lvl - v'" by auto
    moreover from v' have "level_labels st lvl - v' \<subseteq> level_labels st lvl - v" by auto
    ultimately have "level_labels st lvl - v' \<subset> level_labels st lvl - v" by blast
    then show ?thesis
      by (simp add: psubset_card_mono finite_level_labels)
  qed
qed

termination search_loop
proof (relation "inv_image (less_than <*lex*> less_than)
         (\<lambda>(E, st, q, lvl, ef, lim, c, r, v). (card (level_labels st lvl - v), length c))",
       goal_cases)
  case 1
  show ?case by (intro wf_inv_image wf_lex_prod wf_less_than)
next
  case (2 E st q lvl ef lim c r v cur tl0 rest fr)
  then show ?case by simp
next
  case (3 E st q lvl ef lim c r v cur tl0 rest fr node)
  let ?rest = "pq_pop MinHNSWHeapComparer (cur # tl0)"
  obtain c' r' v' where f: "foldl (visit_neighbor E st q ef) (?rest, r, v) (connections node ! lvl) = (c', r', v')"
    by (cases "foldl (visit_neighbor E st q ef) (?rest, r, v) (connections node ! lvl)") auto
  from 3 have "set (connections node ! lvl) \<subseteq> level_labels st lvl"
    by (auto intro: level_labels_mem [THEN subsetD])
  from search_loop_measure [OF f this] 3(1,2) show ?case
    by (auto simp: f)
next
  case (4 E st q lvl ef lim c r v cur tl0 rest fr node)
  then show ?case by simp
qed

declare search_loop.simps [simp del]

text \<open>
  \<open>search_layer_internal\<close>. The level is never negative where the function is called. The
  result is the min-heap \<open>final_results\<close>, filled from \<open>results\<close>.
\<close>

definition search_layer_internal ::
  "env \<Rightarrow> kvstore \<Rightarrow> nat \<Rightarrow> vec \<Rightarrow> nat \<Rightarrow> nat \<Rightarrow> bool \<Rightarrow> heap_item list" where
  "search_layer_internal E st ep_label query_vec target_level ef limited_search =
     (case (if valid_entry st target_level ep_label then Some ep_label
            else fallback_entry st target_level) of
        None \<Rightarrow> []
      | Some ep \<Rightarrow>
          (case label_to_key st ep of
             None \<Rightarrow> []
           | Some entry_key \<Rightarrow>
               (case embeddings st entry_key of
                  None \<Rightarrow> []
                | Some v \<Rightarrow>
                    (let dist = calculate_distance E query_vec v
                     in foldl (\<lambda>final_results x. pq_push MinHNSWHeapComparer x final_results) []
                          (pq_drain MaxHNSWHeapComparer
                             (search_loop E st query_vec target_level ef limited_search
                                (pq_push MinHNSWHeapComparer (dist, ep) [],
                                 pq_push MaxHNSWHeapComparer (dist, ep) [], {ep})))))))"

definition search_base_layer :: "env \<Rightarrow> kvstore \<Rightarrow> nat \<Rightarrow> vec \<Rightarrow> nat \<Rightarrow> heap_item list" where
  "search_base_layer E st ep_label query_vec efSearch =
     search_layer_internal E st ep_label query_vec 0 efSearch False"

text \<open>
  \<open>select_neighbors\<close> pops from the heap it is given: the loop with the vector
  \<open>neighbors\<close>; the result is the vector and what is left of the heap.
\<close>

function select_loop :: "heap_item list \<Rightarrow> nat list \<Rightarrow> nat \<Rightarrow> nat list \<times> heap_item list" where
  "select_loop candidates neighbors M =
     (case candidates of
        [] \<Rightarrow> (neighbors, candidates)
      | nearest # _ \<Rightarrow>
          if length neighbors < M
          then select_loop (pq_pop MinHNSWHeapComparer candidates) (neighbors @ [snd nearest]) M
          else (neighbors, candidates))"
  by pat_completeness auto
termination
  by (relation "measure (\<lambda>(candidates, neighbors, M). length candidates)") auto

declare select_loop.simps [simp del]

definition select_neighbors :: "heap_item list \<Rightarrow> nat \<Rightarrow> nat list \<times> heap_item list" where
  "select_neighbors candidates M = select_loop candidates [] M"

text \<open>
  \<open>prune_connections\<close>. The loop body reads \<open>label_to_key_[neighbor_label]\<close> with
  \<open>operator[]\<close>. The heap is a min-heap, so \<open>pop()\<close> removes the nearest neighbour: the
  first loop pops while the heap has more than \<open>max_conn\<close> elements, the second takes what
  is left.
\<close>

definition prune_neighbor ::
  "env \<Rightarrow> vec \<Rightarrow> heap_item list \<times> kvstore \<Rightarrow> nat \<Rightarrow> heap_item list \<times> kvstore" where
  "prune_neighbor E node_vec acc neighbor_label =
     (case acc of (connections_pq, st) \<Rightarrow>
        (case map_of (hnsw_nodes st) neighbor_label of
           None \<Rightarrow> (connections_pq, st)
         | Some nb \<Rightarrow>
             if deleted nb then (connections_pq, st)
             else (let (k, l2k) = index_default (label_to_key st) neighbor_label 0;
                       st' = st\<lparr>label_to_key := l2k\<rparr>
                   in (case embeddings st' k of
                         None \<Rightarrow> (connections_pq, st')
                       | Some v \<Rightarrow>
                           (pq_push MinHNSWHeapComparer (calculate_distance E node_vec v, neighbor_label)
                              connections_pq, st')))))"

definition prune_connections :: "env \<Rightarrow> nat \<Rightarrow> nat \<Rightarrow> nat \<Rightarrow> kvstore \<Rightarrow> kvstore" where
  "prune_connections E node_label level max_conn st =
     (case map_of (hnsw_nodes st) node_label of
        None \<Rightarrow> st
      | Some node \<Rightarrow>
          if length (connections node) \<le> level \<or> length (connections node ! level) \<le> max_conn
          then st
          else (let (k, l2k) = index_default (label_to_key st) node_label 0;
                    (node_vec, emb) = index_default (embeddings st) k [];
                    st1 = st\<lparr>label_to_key := l2k, embeddings := emb\<rparr>;
                    (connections_pq, st2) = foldl (prune_neighbor E node_vec) ([], st1) (connections node ! level);
                    connections_pq1 = (pq_pop MinHNSWHeapComparer ^^ (length connections_pq - max_conn))
                                        connections_pq;
                    kept_connections = map snd (pq_drain MinHNSWHeapComparer connections_pq1)
                in st2\<lparr>hnsw_nodes :=
                       map_upd node_label
                         (node\<lparr>connections := (connections node)[level := kept_connections]\<rparr>)
                         (hnsw_nodes st2)\<rparr>))"

text \<open>The constructor \<open>HNSWNode(k, l, lvl)\<close>.\<close>

definition HNSWNode_new :: "64 word \<Rightarrow> nat \<Rightarrow> nat \<Rightarrow> HNSWNode" where
  "HNSWNode_new k l lvl =
     \<lparr>hkey = k, hlabel = l, max_level = int lvl, connections = replicate (lvl + 1) [], deleted = False\<rparr>"

text \<open>The neighbour side of a new edge (the body of \<open>for (size_t neighbor_label : neighbors)\<close>).\<close>

definition connect_neighbor :: "env \<Rightarrow> nat \<Rightarrow> nat \<Rightarrow> kvstore \<Rightarrow> nat \<Rightarrow> kvstore" where
  "connect_neighbor E label level st neighbor_label =
     (if neighbor_label = label then st
      else (case map_of (hnsw_nodes st) neighbor_label of
              None \<Rightarrow> st
            | Some neighbor_node \<Rightarrow>
                if deleted neighbor_node then st
                else (let conns = (if length (connections neighbor_node) \<le> level
                                   then resize (level + 1) (connections neighbor_node)
                                   else connections neighbor_node)
                      in if label \<in> set (conns ! level)
                         then st\<lparr>hnsw_nodes :=
                                   map_upd neighbor_label (neighbor_node\<lparr>connections := conns\<rparr>) (hnsw_nodes st)\<rparr>
                         else prune_connections E neighbor_label level HNSW_M_max
                                (st\<lparr>hnsw_nodes :=
                                      map_upd neighbor_label
                                        (neighbor_node\<lparr>connections := conns[level := conns ! level @ [label]]\<rparr>)
                                        (hnsw_nodes st)\<rparr>))))"

text \<open>
  One level of step 2 of \<open>hnsw_insert\<close>: the state and \<open>current_entry_point\<close> before and
  after.
\<close>

definition connect_level :: "env \<Rightarrow> nat \<Rightarrow> vec \<Rightarrow> kvstore \<times> nat \<Rightarrow> nat \<Rightarrow> kvstore \<times> nat" where
  "connect_level E label vec acc level =
     (case acc of (st, current_entry_point) \<Rightarrow>
        (let candidates_pq = search_layer_internal E st current_entry_point vec level HNSW_efConstruction False;
             (neighbors, candidates_left) = select_neighbors candidates_pq HNSW_M
         in (case map_of (hnsw_nodes st) label of
               None \<Rightarrow> (st, current_entry_point)
             | Some current_node \<Rightarrow>
                 if level < length (connections current_node)
                 then (let st1 = st\<lparr>hnsw_nodes :=
                                      map_upd label
                                        (current_node\<lparr>connections := (connections current_node)[level := neighbors]\<rparr>)
                                        (hnsw_nodes st)\<rparr>;
                           st2 = foldl (connect_neighbor E label level) st1 neighbors;
                           st3 = prune_connections E label level HNSW_M st2
                       in (st3, (case candidates_left of [] \<Rightarrow> current_entry_point | c # _ \<Rightarrow> snd c)))
                 else (st, current_entry_point))))"

text \<open>
  One level of step 1 of \<open>hnsw_insert\<close> (the vector \<open>entry_points_for_search\<close> is written
  and never read).
\<close>

definition descend_level :: "env \<Rightarrow> kvstore \<Rightarrow> vec \<Rightarrow> nat \<Rightarrow> nat \<Rightarrow> nat" where
  "descend_level E st vec current_entry_point level =
     (case search_layer_internal E st current_entry_point vec level 1 True of
        [] \<Rightarrow> current_entry_point
      | nearest # _ \<Rightarrow> snd nearest)"

text \<open>
  \<open>hnsw_insert\<close>, first part: a key that has a label keeps it and the connection lists of
  its node are cleared; a new key gets the next label.
\<close>

definition assign_label :: "64 word \<Rightarrow> kvstore \<Rightarrow> nat \<times> kvstore" where
  "assign_label k st =
     (case key_to_label st k of
        Some label \<Rightarrow>
          (label,
           (case map_of (hnsw_nodes st) label of
              None \<Rightarrow> st
            | Some existing_node \<Rightarrow>
                st\<lparr>hnsw_nodes :=
                      map_upd label
                        (existing_node\<lparr>connections := map (\<lambda>c. []) (connections existing_node)\<rparr>)
                        (hnsw_nodes st)\<rparr>))
      | None \<Rightarrow>
          (next_label st,
           st\<lparr>next_label := next_label st + 1,
              key_to_label := (key_to_label st)(k \<mapsto> next_label st),
              label_to_key := (label_to_key st)(next_label st \<mapsto> k)\<rparr>))"

text \<open>
  Second part: the node is made when the label has none, and gets the key, the new level,
  \<open>deleted = false\<close> and \<open>node_level + 1\<close> connection lists.
\<close>

definition install_node :: "nat \<Rightarrow> 64 word \<Rightarrow> nat \<Rightarrow> kvstore \<Rightarrow> kvstore" where
  "install_node node_level k label st =
     (let node0 = (case map_of (hnsw_nodes st) label of
                     None \<Rightarrow> HNSWNode_new k label node_level
                   | Some n \<Rightarrow> n);
          current_node = node0\<lparr>hkey := k, max_level := int node_level, deleted := False,
                                connections := resize (node_level + 1) (connections node0)\<rparr>
      in st\<lparr>hnsw_nodes := map_upd label current_node (hnsw_nodes st)\<rparr>)"

text \<open>
  Third part, for a graph that is not empty: step 1 (the descent to the level of the node),
  step 2 (the connections, from \<open>min(node_level, current_top_level)\<close> down to 0), and the new
  entry point when the node is higher than the graph was.
\<close>

definition link_node :: "env \<Rightarrow> nat \<Rightarrow> nat \<Rightarrow> vec \<Rightarrow> kvstore \<Rightarrow> kvstore" where
  "link_node E node_level label vec st =
     (let top = nat (current_max_level st);
          entry1 = foldl (descend_level E st vec) (entry_point_label st)
                     (rev [node_level + 1 ..< top + 1]);
          (st3, entry2) = foldl (connect_level E label vec) (st, entry1)
                            (rev [0 ..< min node_level top + 1])
      in if current_max_level st3 < int node_level
         then st3\<lparr>current_max_level := int node_level, entry_point_label := label\<rparr>
         else st3)"

text \<open>
  \<open>hnsw_insert\<close>; \<open>node_level\<close> is the value that \<open>get_random_level()\<close> returns, which is
  not negative.
\<close>

definition hnsw_insert :: "env \<Rightarrow> nat \<Rightarrow> 64 word \<Rightarrow> vec \<Rightarrow> kvstore \<Rightarrow> kvstore" where
  "hnsw_insert E node_level k vec st =
     (if embedding_dimension st = 0 then st
      else (let (label, st1) = assign_label k st;
                st2 = install_node node_level k label st1
            in if current_max_level st2 < 0
               then st2\<lparr>entry_point_label := label,
                        current_max_level := int node_level,
                        label_to_key := (if label_to_key st2 label = None
                                         then (label_to_key st2)(label \<mapsto> k) else label_to_key st2)\<rparr>
               else link_node E node_level label vec st2))"

section \<open>LSM engine: get, del, flush, compaction, put, scan\<close>

text \<open>
  \<open>fetchString(file, startOffset, len)\<close>, the file being that of the run. \<open>startOffset\<close> is
  an \<open>int\<close> and \<open>len\<close> a \<open>uint32_t\<close>: their sum is computed in 32 bits. \<open>fread\<close> reads
  \<open>len\<close> bytes or up to the end of the file; when it read fewer, the result is empty.
\<close>

definition fetchString :: "sstable \<Rightarrow> int \<Rightarrow> 32 word \<Rightarrow> string" where
  "fetchString file startOffset len =
     (if filename file = None \<or> startOffset < 0 \<or> len = 0 then []
      else (let fileSize = int (length (file_image file))
            in if fileSize \<le> startOffset then []
               else (let len1 = (if fileSize < uint ((word_of_int startOffset :: 32 word) + len)
                                 then (word_of_int (fileSize - startOffset) :: 32 word) else len);
                         buffer = take (unat len1) (drop (nat startOffset) (file_image file));
                         bytesRead = length buffer
                     in if bytesRead \<noteq> unat len1 then [] else buffer)))"

text \<open>
  The position of a value in the file of a run, from its offset in the value region:
  \<open>offset + 32 + 10240 + 12 * getCnt()\<close>, stored in an \<open>int\<close> or passed as one.
\<close>

definition file_offset :: "int \<Rightarrow> 'a sstablehead_scheme \<Rightarrow> int" where
  "file_offset off h = sint (word_of_int (off + 32 + 10240 + 12 * int (getCnt_ss h)) :: 32 word)"

text \<open>
  \<open>get\<close>, the loop over the heads of one level: \<open>time\<close> and the goal found so far (the
  run, \<open>goalOffset\<close>, \<open>goalLen\<close>). \<open>level0\<close> says whether the level is level 0, where a
  head that does not hold the key is skipped; at another level it ends the loop.
\<close>

fun get_level ::
  "bool \<Rightarrow> 64 word \<Rightarrow> sstable list \<Rightarrow> 64 word \<times> (sstable \<times> int \<times> 32 word) option
   \<Rightarrow> 64 word \<times> (sstable \<times> int \<times> 32 word) option" where
  "get_level level0 k [] acc = acc"
| "get_level level0 k (it # its) (time, goal) =
     (if k < minV it \<or> maxV it < k then get_level level0 k its (time, goal)
      else (let (off, len) = searchOffset it k
            in if off = - 1
               then (if level0 then get_level level0 k its (time, goal) else (time, goal))
               else if time < ss_time it
                    then get_level level0 k its (ss_time it, Some (it, file_offset off it, len))
                    else get_level level0 k its (time, goal)))"

text \<open>The loop over the levels, which ends after the first level that gave a result.\<close>

fun get_levels ::
  "kvstore \<Rightarrow> 64 word \<Rightarrow> nat list \<Rightarrow> 64 word \<times> (sstable \<times> int \<times> 32 word) option
   \<Rightarrow> 64 word \<times> (sstable \<times> int \<times> 32 word) option" where
  "get_levels st k [] acc = acc"
| "get_levels st k (level # levels) acc =
     (let acc' = get_level (level = 0) k (sstableIndex st level) acc
      in if fst acc' \<noteq> 0 then acc' else get_levels st k levels acc')"

definition get :: "kvstore \<Rightarrow> 64 word \<Rightarrow> string" where
  "get st k =
     (let res = skiplist_search (mem st) k
      in if res \<noteq> [] then (if res = DEL then [] else res)
         else (case snd (get_levels st k [0 ..< nat (totalLevel st + 1)] (0, None)) of
                 None \<Rightarrow> []
               | Some (goalUrl, goalOffset, goalLen) \<Rightarrow>
                   (let res = fetchString goalUrl goalOffset goalLen
                    in if res = DEL then [] else res)))"

text \<open>
  \<open>del\<close>: the value it returns and the store after it. \<open>draws\<close> is the random source of the
  skip list.
\<close>

definition del :: "bool list \<Rightarrow> 64 word \<Rightarrow> kvstore \<Rightarrow> bool \<times> kvstore" where
  "del draws k st =
     (let v = skiplist_search (mem st) k
      in if v = [] then (False, st)
         else
           (let st1 =
                  (case key_to_label st k of
                     None \<Rightarrow> st
                   | Some label \<Rightarrow>
                       (case map_of (hnsw_nodes st) label of
                          None \<Rightarrow> st
                        | Some node \<Rightarrow>
                            if deleted node then st
                            else (let st' = st\<lparr>hnsw_nodes := map_upd label (node\<lparr>deleted := True\<rparr>) (hnsw_nodes st)\<rparr>
                                  in (case embeddings st k of
                                        None \<Rightarrow> st'
                                      | Some original_vec \<Rightarrow>
                                          st'\<lparr>hnsw_vectors_to_persist_as_deleted :=
                                                hnsw_vectors_to_persist_as_deleted st' @ [original_vec]\<rparr>))))
            in (True, st1\<lparr>mem := skiplist_insert draws k DEL (mem st1)\<rparr>)))"

subsection \<open>Compaction\<close>

record poi =
  sstableId :: nat
  pos :: nat
  ptime :: "64 word"
  pindex :: Index

text \<open>
  \<open>cmpPoi\<close>: the smallest key is on top of the heap, and for one key the largest
  timestamp.
\<close>

definition cmpPoi :: "poi \<Rightarrow> poi \<Rightarrow> bool" where
  "cmpPoi a b \<longleftrightarrow>
     (if ikey (pindex a) = ikey (pindex b) then ptime a < ptime b
      else ikey (pindex b) < ikey (pindex a))"

definition key_range :: "sstable list \<Rightarrow> 64 word \<times> 64 word" where
  "key_range heads = foldl (\<lambda>(minKey, maxKey) h. (min minKey (minV h), max maxKey (maxV h))) (- 1, 0) heads"

definition overlappingTables :: "kvstore \<Rightarrow> nat \<Rightarrow> 64 word \<times> 64 word \<Rightarrow> sstable list" where
  "overlappingTables st level keys =
     (case keys of (minKey, maxKey) \<Rightarrow>
        if int (level + 1) \<le> totalLevel st
        then filter (\<lambda>h. \<not> (maxV h < minKey \<or> maxKey < minV h)) (sstableIndex st (level + 1))
        else [])"

text \<open>The first record of every table that is not empty goes into the heap.\<close>

definition init_pq :: "sstable list \<Rightarrow> poi list" where
  "init_pq tables =
     foldl (\<lambda>pq i. if 0 < getCnt_ss (tables ! i)
                    then pq_push cmpPoi \<lparr>sstableId = i, pos = 0, ptime = ss_time (tables ! i),
                                  pindex = getIndexById (tables ! i) 0\<rparr> pq
                    else pq)
           [] [0 ..< length tables]"

definition pq_weight :: "sstable list \<Rightarrow> poi list \<Rightarrow> nat" where
  "pq_weight tables pq = sum_list (map (\<lambda>p. Suc (getCnt_ss (tables ! sstableId p) - pos p)) pq)"

text \<open>
  The merge: \<open>latestValues\<close> is a \<open>std::map\<close> from a key to its value and timestamp, a list
  in key order.
\<close>

function merge_loop ::
  "sstable list \<Rightarrow> poi list \<Rightarrow> (64 word \<times> string \<times> 64 word) list \<Rightarrow> (64 word \<times> string \<times> 64 word) list" where
  "merge_loop tables [] latestValues = latestValues"
| "merge_loop tables (p # rest) latestValues =
     (let pq = pq_pop cmpPoi (p # rest);
          k = ikey (pindex p);
          t = tables ! sstableId p;
          v = (if pos p = 0 then getData t 0
               else (let (off, len) = searchOffset t k
                     in if off \<noteq> - 1 then fetchString t (file_offset off t) len else []));
          pq' = (if pos p + 1 < getCnt_ss t
                 then pq_push cmpPoi (p\<lparr>pos := pos p + 1, pindex := getIndexById t (pos p + 1)\<rparr>) pq
                 else pq);
          latestValues' = (case map_of latestValues k of
                             None \<Rightarrow> map_upd k (v, ptime p) latestValues
                           | Some (v0, t0) \<Rightarrow>
                               if t0 < ptime p then map_upd k (v, ptime p) latestValues
                               else latestValues)
      in merge_loop tables pq' latestValues')"
  by pat_completeness auto
termination
  by (relation "measure (\<lambda>(tables, pq, lv). pq_weight tables pq)")
     (auto simp: pq_weight_def)

text \<open>
  Writing a run into the directory of a level: the directory is made when it is missing,
  the file is named after \<open>TIME\<close>, and the head is added to the index (\<open>addsstable\<close>).
\<close>

definition write_table :: "nat \<Rightarrow> sstable \<Rightarrow> kvstore \<Rightarrow> kvstore" where
  "write_table lvl newTable st =
     (let st1 = (if lvl \<in> level_dirs st then st
                 else st\<lparr>level_dirs := insert lvl (level_dirs st),
                         totalLevel := (if totalLevel st < int lvl then int lvl else totalLevel st)\<rparr>)
      in st1\<lparr>sstableIndex :=
               (sstableIndex st1)(lvl := sstableIndex st1 lvl @ [newTable\<lparr>filename := Some (lvl, TIME st1)\<rparr>])\<rparr>)"

text \<open>
  One entry of \<open>latestValues\<close> on its way into the new run: a tombstone is not written; a
  run that has reached \<open>MAXSIZE\<close> is written and a new one begun.
\<close>

definition output_step ::
  "nat \<Rightarrow> sstable \<times> kvstore \<Rightarrow> 64 word \<times> string \<times> 64 word \<Rightarrow> sstable \<times> kvstore" where
  "output_step lvl acc entry =
     (case acc of (newTable, st) \<Rightarrow>
        (case entry of (k, v, t) \<Rightarrow>
           if v = DEL then (newTable, st)
           else (let newTable1 = sstable_insert k v newTable
                 in if MAXSIZE \<le> ss_bytes newTable1
                    then (let st1 = write_table lvl newTable1 st;
                              st2 = st1\<lparr>TIME := TIME st1 + 1\<rparr>
                          in ((sstable_reset newTable1)\<lparr>ss_time := TIME st2\<rparr>, st2))
                    else (newTable1, st))))"

text \<open>
  \<open>delsstable(filename)\<close>: the first head of that name, in the first level that has one,
  leaves the index, and the file is removed.
\<close>

fun erase_first :: "('a \<Rightarrow> bool) \<Rightarrow> 'a list \<Rightarrow> 'a list" where
  "erase_first P [] = []"
| "erase_first P (x # xs) = (if P x then xs else x # erase_first P xs)"

fun delsstable_levels ::
  "(nat \<times> 64 word) option \<Rightarrow> nat list \<Rightarrow> (nat \<Rightarrow> sstable list) \<Rightarrow> (nat \<Rightarrow> sstable list)" where
  "delsstable_levels f [] idx = idx"
| "delsstable_levels f (level # levels) idx =
     (if \<exists>h\<in>set (idx level). filename h = f
      then idx(level := erase_first (\<lambda>h. filename h = f) (idx level))
      else delsstable_levels f levels idx)"

definition delsstable :: "(nat \<times> 64 word) option \<Rightarrow> kvstore \<Rightarrow> kvstore" where
  "delsstable f st =
     st\<lparr>sstableIndex := delsstable_levels f [0 ..< nat (totalLevel st + 1)] (sstableIndex st)\<rparr>"

text \<open>
  The branch \<open>level == 0\<close> of \<open>compaction\<close>: all runs of level 0 and the runs of level 1
  that overlap their key range are merged into new runs of level 1. \<open>None\<close> stands for the
  \<open>continue\<close> taken when the heap is empty.
\<close>

definition compact_level0 :: "kvstore \<Rightarrow> kvstore option" where
  "compact_level0 st =
     (let tables = sstableIndex st 0 @ overlappingTables st 0 (key_range (sstableIndex st 0));
          filesToDelete = map filename tables;
          pq = init_pq tables
      in if pq = [] then None
         else (let st1 = st\<lparr>TIME := TIME st + 1\<rparr>;
                   newTable = (sstable_reset sstable_empty)\<lparr>ss_time := TIME st1\<rparr>;
                   latestValues = merge_loop tables pq [];
                   (newTable', st2) = foldl (output_step 1) (newTable, st1) latestValues;
                   st3 = (if 0 < getCnt_ss newTable' then write_table 1 newTable' st2 else st2);
                   st4 = foldl (\<lambda>s f. delsstable f s) st3 filesToDelete
               in Some (st4\<lparr>sstableIndex := (sstableIndex st4)(0 := [])\<rparr>)))"

text \<open>
  The cap of a level, \<open>int maxFiles = (level == 0) ? 4 : (1 << (level + 1))\<close>. The shift
  \<open>1 << n\<close> is computed in \<open>int\<close>; C++ leaves it undefined for \<open>n\<close> of 32 and more,
  where the model has 0. In \<open>size() <= maxFiles\<close> the \<open>int\<close> is converted to \<open>size_t\<close>.
\<close>

definition shl1 :: "nat \<Rightarrow> int" where
  "shl1 n = sint (push_bit n (1 :: 32 word))"

definition maxFiles_of :: "nat \<Rightarrow> int" where
  "maxFiles_of level = (if level = 0 then 4 else shl1 (level + 1))"

definition size_le_int :: "nat \<Rightarrow> int \<Rightarrow> bool" where
  "size_le_int n i \<longleftrightarrow> n \<le> unat (word_of_int i :: 64 word)"

text \<open>
  The branch for a level above 0: the oldest runs and the overlapping runs of the next level
  are selected, and the function returns. \<open>std::sort\<close> leaves the order of runs of one
  timestamp open; nothing reads the selection.
\<close>

definition tablesToMerge :: "kvstore \<Rightarrow> nat \<Rightarrow> sstable list" where
  "tablesToMerge st level =
     (let filesToMerge = sint (word_of_int (int (length (sstableIndex st level)) - maxFiles_of level) :: 32 word)
      in take (nat filesToMerge) (sort_key ss_time (sstableIndex st level)))"

lemma totalLevel_write_table:
  "totalLevel (write_table lvl t st) \<le> max (totalLevel st) (int lvl) \<and>
   totalLevel st \<le> totalLevel (write_table lvl t st)"
  by (simp add: write_table_def Let_def)

lemma totalLevel_output_step:
  "output_step lvl (t, st) e = (t', st') \<Longrightarrow> totalLevel st' \<le> max (totalLevel st) (int lvl)"
  using totalLevel_write_table [of lvl "sstable_insert (fst e) (fst (snd e)) t" st]
  by (cases e) (auto simp: output_step_def Let_def split: if_splits)

lemma totalLevel_foldl_output_step:
  "foldl (output_step lvl) (t, st) es = (t', st') \<Longrightarrow> totalLevel st' \<le> max (totalLevel st) (int lvl)"
proof (induction es arbitrary: t st)
  case Nil
  then show ?case by simp
next
  case (Cons e es)
  obtain t1 st1 where s: "output_step lvl (t, st) e = (t1, st1)"
    by (cases "output_step lvl (t, st) e") auto
  from Cons.prems s have "foldl (output_step lvl) (t1, st1) es = (t', st')" by simp
  from Cons.IH [OF this] totalLevel_output_step [OF s] show ?case by simp
qed

lemma totalLevel_foldl_delsstable:
  "totalLevel (foldl (\<lambda>s f. delsstable f s) st fs) = totalLevel st"
  by (induction fs arbitrary: st) (simp_all add: delsstable_def)

lemma totalLevel_compact_level0:
  assumes "compact_level0 st = Some st'"
  shows "totalLevel st' \<le> max (totalLevel st) 1"
proof -
  let ?tables = "sstableIndex st 0 @ overlappingTables st 0 (key_range (sstableIndex st 0))"
  let ?st1 = "st\<lparr>TIME := TIME st + 1\<rparr>"
  let ?nt = "(sstable_reset sstable_empty)\<lparr>ss_time := TIME ?st1\<rparr>"
  let ?lv = "merge_loop ?tables (init_pq ?tables) []"
  obtain t2 st2 where f: "foldl (output_step 1) (?nt, ?st1) ?lv = (t2, st2)"
    by (cases "foldl (output_step 1) (?nt, ?st1) ?lv") auto
  from totalLevel_foldl_output_step [OF f] have b2: "totalLevel st2 \<le> max (totalLevel st) 1" by simp
  let ?st3 = "if 0 < getCnt_ss t2 then write_table 1 t2 st2 else st2"
  have b3: "totalLevel ?st3 \<le> max (totalLevel st) 1"
    using b2 totalLevel_write_table [of 1 t2 st2] by auto
  from assms f have "totalLevel st' = totalLevel ?st3"
    by (auto simp: compact_level0_def Let_def totalLevel_foldl_delsstable split: if_splits)
  with b3 show ?thesis by simp
qed

text \<open>\<open>compaction\<close>: the loop over the levels.\<close>

function compaction_loop :: "nat \<Rightarrow> kvstore \<Rightarrow> kvstore" where
  "compaction_loop level st =
     (if totalLevel st < int level then st
      else (let maxFiles = maxFiles_of level
            in if size_le_int (length (sstableIndex st level)) maxFiles then compaction_loop (level + 1) st
               else if level = 0
                    then (case compact_level0 st of
                            None \<Rightarrow> compaction_loop (level + 1) st
                          | Some st' \<Rightarrow>
                              if int (level + 1) \<le> totalLevel st' \<and>
                                 \<not> size_le_int (length (sstableIndex st' (level + 1))) (shl1 (level + 2))
                              then compaction_loop (level + 1) st'
                              else st')
                    else (let selected = tablesToMerge st level;
                              overlapping = overlappingTables st level (key_range selected)
                          in st)))"
  by pat_completeness auto
termination
proof (relation "measure (\<lambda>(level, st). nat (max (totalLevel st) 1 + 1 - int level))", goal_cases)
  case 1
  show ?case by simp
next
  case (2 level st maxFiles)
  then show ?case by simp
next
  case (3 level st maxFiles)
  then show ?case by simp
next
  case (4 level st maxFiles st')
  from totalLevel_compact_level0 [OF 4(5)] 4(4) show ?case by simp
qed

declare compaction_loop.simps [simp del]

definition compaction :: "kvstore \<Rightarrow> kvstore" where
  "compaction st = compaction_loop 0 st"

subsection \<open>put\<close>

text \<open>
  The test for the delete-marker vector: every component is
  \<open>std::numeric_limits<float>::max()\<close>.
\<close>

definition all_max :: "vec \<Rightarrow> bool" where
  "all_max v = list_all (\<lambda>x. x = FLT_MAX_bits) v"

text \<open>A \<open>uint64_t\<close> in the embedding file: two units of four bytes, the low one first.\<close>

definition u64_words :: "64 word \<Rightarrow> 32 word list" where
  "u64_words w = [ucast w, ucast (drop_bit 32 w)]"

text \<open>
  The flush writes the vectors of the keys of the memtable at the end of \<open>embeddings.bin\<close>
  (opened with \<open>std::ios::app\<close>, which makes the file when there is none): the dimension
  first when the file is empty, then, for each node whose key has an embedding that is not
  taken for a delete marker, the key and the components.
\<close>

definition persist_node :: "kvstore \<Rightarrow> 32 word list \<Rightarrow> slnode \<Rightarrow> 32 word list" where
  "persist_node st file cur_node =
     (case embeddings st (sl_key cur_node) of
        None \<Rightarrow> file
      | Some vec_to_persist \<Rightarrow>
          (let is_del_marker =
                 (if int (length vec_to_persist) = embedding_dimension st \<and> 0 < embedding_dimension st
                  then all_max vec_to_persist
                  else if vec_to_persist = [] \<and> embedding_dimension st = 0 then False
                  else True)
           in if is_del_marker then file
              else file @ u64_words (sl_key cur_node) @ vec_to_persist))"

definition flush_embeddings :: "kvstore \<Rightarrow> kvstore" where
  "flush_embeddings st =
     (let file0 = (case embedding_file st of None \<Rightarrow> [] | Some f \<Rightarrow> f);
          file1 = (if file0 = [] \<and> 0 < embedding_dimension st
                   then u64_words (word_of_int (embedding_dimension st)) else file0)
      in st\<lparr>embedding_file := Some (foldl (persist_node st) file1 (getFirst (mem st)))\<rparr>)"

text \<open>
  The flush inside \<open>put\<close>: the memtable becomes a run of level 0, then \<open>compaction()\<close>.
\<close>

definition flush :: "kvstore \<Rightarrow> kvstore" where
  "flush st =
     (let (ss_to_flush, t) = sstable_of_skiplist (TIME st) (mem st);
          st1 = flush_embeddings (st\<lparr>TIME := t\<rparr>);
          st2 = st1\<lparr>mem := skiplist_reset (mem st1)\<rparr>;
          st3 = (if 0 \<in> level_dirs st2 then st2
                 else st2\<lparr>level_dirs := insert 0 (level_dirs st2),
                          totalLevel := (if totalLevel st2 < 0 then 0 else totalLevel st2)\<rparr>);
          st4 = (if 0 < getCnt_ss ss_to_flush
                 then st3\<lparr>sstableIndex :=
                          (sstableIndex st3)(0 := sstableIndex st3 0 @
                             [ss_to_flush\<lparr>filename := Some (0, ss_time ss_to_flush)\<rparr>])\<rparr>
                 else st3)
      in compaction st4)"

text \<open>
  Step 1 of \<open>put\<close>, the dimension: a store without a dimension takes that of the first
  embedding that is not empty.
\<close>

definition determine_dimension :: "env \<Rightarrow> string \<Rightarrow> kvstore \<Rightarrow> kvstore" where
  "determine_dimension E s_val st =
     (if embedding_dimension st = 0 \<and> s_val \<noteq> [] \<and> s_val \<noteq> DEL \<and> embedding_single E s_val \<noteq> []
      then st\<lparr>embedding_dimension := int (length (embedding_single E s_val))\<rparr> else st)"

text \<open>Step 1 of \<open>put\<close>, the vector to store; \<open>None\<close> is the early \<open>return\<close>.\<close>

definition put_embedding :: "env \<Rightarrow> string \<Rightarrow> int \<Rightarrow> vec option" where
  "put_embedding E s_val d =
     (if s_val \<noteq> [] \<and> s_val \<noteq> DEL
      then (let emb_vec = embedding_single E s_val
            in if emb_vec = [] \<and> 0 < d then Some (replicate (nat d) 0)
               else if emb_vec \<noteq> [] \<and> int (length emb_vec) \<noteq> d \<and> d \<noteq> 0 then None
               else Some emb_vec)
      else if s_val = DEL \<and> 0 < d then Some (replicate (nat d) FLT_MAX_bits)
      else if s_val = [] \<and> 0 < d then Some (replicate (nat d) 0)
      else Some [])"

text \<open>
  The vector that an update replaces is kept for the snapshot, unless it is empty, a delete
  marker, or already in one of the two lists.
\<close>

definition record_old_vector :: "env \<Rightarrow> 64 word \<Rightarrow> kvstore \<Rightarrow> kvstore" where
  "record_old_vector E k st =
     (case embeddings st k of
        None \<Rightarrow> st
      | Some old_vector_copy \<Rightarrow>
          (let old_vec_is_del_marker_vector =
                 (old_vector_copy \<noteq> [] \<and> int (length old_vector_copy) = embedding_dimension st \<and>
                  0 < embedding_dimension st \<and> all_max old_vector_copy)
           in if old_vector_copy \<noteq> [] \<and> \<not> old_vec_is_del_marker_vector \<and>
                 \<not> list_ex (compare_float_vectors E old_vector_copy) (loaded_deleted_vectors st) \<and>
                 \<not> list_ex (compare_float_vectors E old_vector_copy) (hnsw_vectors_to_persist_as_deleted st)
              then st\<lparr>hnsw_vectors_to_persist_as_deleted :=
                        hnsw_vectors_to_persist_as_deleted st @ [old_vector_copy]\<rparr>
              else st))"

text \<open>
  Step 3 of \<open>put\<close>: the size the memtable would have, in \<open>uint32_t\<close>; the flush when that
  size, with the header and the Bloom filter, is past \<open>MAXSIZE\<close>; then the insert.
\<close>

definition estimated_new_total_bytes :: "64 word \<Rightarrow> string \<Rightarrow> kvstore \<Rightarrow> 32 word" where
  "estimated_new_total_bytes k s_val st =
     (let current_memtable_bytes = getBytes (mem st);
          new_val_bytes = (of_nat (length s_val) :: 32 word);
          existing_val_in_memtable = skiplist_search (mem st) k
      in if existing_val_in_memtable \<noteq> []
         then current_memtable_bytes - of_nat (length existing_val_in_memtable) + new_val_bytes
         else current_memtable_bytes + 12 + new_val_bytes)"

definition needs_flush :: "64 word \<Rightarrow> string \<Rightarrow> kvstore \<Rightarrow> bool" where
  "needs_flush k s_val st \<longleftrightarrow>
     MAXSIZE < estimated_new_total_bytes k s_val st + 10240 + 32 \<and> 0 < getCnt (mem st)"

definition put_memtable :: "bool list \<Rightarrow> 64 word \<Rightarrow> string \<Rightarrow> kvstore \<Rightarrow> kvstore" where
  "put_memtable draws k s_val st =
     (let st1 = (if needs_flush k s_val st then flush st else st)
      in st1\<lparr>mem := skiplist_insert draws k s_val (mem st1)\<rparr>)"

text \<open>Step 4 of \<open>put\<close>: the HNSW index.\<close>

definition put_hnsw :: "env \<Rightarrow> nat \<Rightarrow> bool \<Rightarrow> 64 word \<Rightarrow> vec \<Rightarrow> kvstore \<Rightarrow> kvstore" where
  "put_hnsw E node_level is_update k emb_vec st =
     (if 0 < embedding_dimension st
      then (let new_emb_is_del_marker =
                  (if int (length emb_vec) = embedding_dimension st \<and> emb_vec \<noteq> [] then all_max emb_vec
                   else emb_vec = []);
                st1 = (if is_update
                       then (case key_to_label st k of
                               None \<Rightarrow> st
                             | Some old_label \<Rightarrow>
                                 (case map_of (hnsw_nodes st) old_label of
                                    None \<Rightarrow> st
                                  | Some n \<Rightarrow>
                                      st\<lparr>hnsw_nodes := map_upd old_label (n\<lparr>deleted := True\<rparr>) (hnsw_nodes st)\<rparr>))
                       else st)
            in if emb_vec \<noteq> [] \<and> \<not> new_emb_is_del_marker
               then hnsw_insert E node_level k emb_vec st1 else st1)
      else st)"

text \<open>
  \<open>put\<close>. \<open>draws\<close> is the random source of the skip list and \<open>node_level\<close> the level that
  \<open>get_random_level()\<close> draws.
\<close>

definition put :: "env \<Rightarrow> bool list \<Rightarrow> nat \<Rightarrow> 64 word \<Rightarrow> string \<Rightarrow> kvstore \<Rightarrow> kvstore" where
  "put E draws node_level k s_val st =
     (let st1 = determine_dimension E s_val st
      in case put_embedding E s_val (embedding_dimension st1) of
           None \<Rightarrow> st1
         | Some emb_vec \<Rightarrow>
             (let is_update = (embeddings st1 k \<noteq> None);
                  st2 = record_old_vector E k st1;
                  st3 = st2\<lparr>embeddings := (embeddings st2)(k \<mapsto> emb_vec)\<rparr>;
                  st4 = put_memtable draws k s_val st3
              in put_hnsw E node_level is_update k emb_vec st4))"

subsection \<open>scan\<close>

text \<open>
  Modelled from the spec: the constant \<open>INF\<close> is declared in a header that is not among the
  sources at hand; it is the largest \<open>uint64_t\<close>, the key of the TAIL sentinel.
\<close>

definition INF_u64 :: "64 word" where
  "INF_u64 = - 1"

text \<open>
  \<open>myPair\<close>; \<open>id\<close> is -1 for the memtable and the position in \<open>sshs\<close> for a run. With
  \<open>cmp\<close> the smallest key is on top of the heap, and for one key the largest timestamp.
\<close>

record myPair =
  mkey :: "64 word"
  mtime :: "64 word"
  mindex :: nat
  mid :: int

definition cmp :: "myPair \<Rightarrow> myPair \<Rightarrow> bool" where
  "cmp a b \<longleftrightarrow> (if mkey a = mkey b then mtime a < mtime b else mkey b < mkey a)"

text \<open>
  The loop over the heads of \<open>scan\<close>: the heap, and the vectors \<open>end\<close> and \<open>sshs\<close>.
\<close>

definition scan_head ::
  "64 word \<Rightarrow> 64 word \<Rightarrow> myPair list \<times> nat list \<times> sstable list \<Rightarrow> sstable
   \<Rightarrow> myPair list \<times> nat list \<times> sstable list" where
  "scan_head key1 key2 acc it =
     (case acc of (heap, ends, sshs) \<Rightarrow>
        if maxV it < key1 \<or> key2 < minV it then (heap, ends, sshs)
        else (let hIndex = lowerBound_ss it key1;
                  tIndex = lowerBound_ss it key2
              in if hIndex < getCnt_ss it
                 then (pq_push cmp \<lparr>mkey = getKey it hIndex, mtime = ss_time it, mindex = hIndex,
                                      mid = int (length sshs)\<rparr> heap,
                       ends @ [if search_ss it key2 = int tIndex then tIndex + 1 else tIndex],
                       sshs @ [it])
                 else (heap, ends, sshs)))"

definition heap_weight :: "nat \<Rightarrow> nat list \<Rightarrow> myPair list \<Rightarrow> nat" where
  "heap_weight msize ends heap =
     sum_list (map (\<lambda>p. Suc ((if 0 \<le> mid p then ends ! nat (mid p) else msize) - mindex p)) heap)"

text \<open>
  The loop \<open>while (!heap.empty())\<close>: what it appends to \<open>list\<close>. The memtable part of the
  heap is there only when \<open>mem\<close> is not empty.
\<close>

function scan_loop ::
  "(64 word \<times> string) list \<Rightarrow> nat list \<Rightarrow> sstable list \<Rightarrow> myPair list \<Rightarrow> 64 word
   \<Rightarrow> (64 word \<times> string) list" where
  "scan_loop mem_list ends sshs [] lastKey = []"
| "scan_loop mem_list ends sshs (cur # rest) lastKey =
     (let heap = pq_pop cmp (cur # rest)
      in if 0 \<le> mid cur
         then (let ssh = sshs ! nat (mid cur);
                   out = (if mkey cur \<noteq> lastKey
                          then (let start = getOffset ssh (int (mindex cur) - 1);
                                    len = getOffset ssh (int (mindex cur)) - start;
                                    scnt = (of_nat (getCnt_ss ssh) :: 32 word);
                                    res = fetchString ssh (sint (10240 + 32 + scnt * 12 + start)) len
                                in if res \<noteq> [] \<and> res \<noteq> DEL then [(mkey cur, res)] else [])
                          else []);
                   heap' = (if mindex cur + 1 < ends ! nat (mid cur)
                            then pq_push cmp (cur\<lparr>mkey := getKey ssh (mindex cur + 1), mindex := mindex cur + 1\<rparr>) heap
                            else heap)
               in out @ scan_loop mem_list ends sshs heap' (mkey cur))
         else (let out = (if mkey cur \<noteq> lastKey
                          then (let res = snd (mem_list ! mindex cur)
                                in if res \<noteq> [] \<and> res \<noteq> DEL then [(mkey cur, res)] else [])
                          else []);
                   heap' = (if mindex cur < length mem_list - 1
                            then pq_push cmp (cur\<lparr>mkey := fst (mem_list ! (mindex cur + 1)), mindex := mindex cur + 1\<rparr>) heap
                            else heap)
               in out @ scan_loop mem_list ends sshs heap' (mkey cur)))"
  by pat_completeness auto
termination
  by (relation "measure (\<lambda>(m, ends, sshs, heap, lastKey). heap_weight (length m) ends heap)")
     (auto simp: heap_weight_def)

definition scan :: "kvstore \<Rightarrow> 64 word \<Rightarrow> 64 word \<Rightarrow> (64 word \<times> string) list" where
  "scan st key1 key2 =
     (let mem_list = skiplist_scan (mem st) key1 key2;
          heap0 = (if mem_list \<noteq> []
                   then pq_push cmp \<lparr>mkey = fst (mem_list ! 0), mtime = INF_u64, mindex = 0, mid = - 1\<rparr> []
                   else []);
          (heap, ends, sshs) =
             foldl (scan_head key1 key2) (heap0, [], [])
                   (concat (map (sstableIndex st) [0 ..< nat (totalLevel st + 1)]))
      in scan_loop mem_list ends sshs heap INF_u64)"

subsection \<open>A new store\<close>

text \<open>
  The constructor \<open>KVStore(dir, "")\<close> on a directory without level directories and without
  \<open>embeddings.bin\<close>: no level is found, the dimension is preset to 768, nothing is loaded.
  The memtable is \<open>new skiplist(0.5)\<close>. Modelled from the spec: the initial value of the
  counter \<open>TIME\<close>, 0, is set in sstable.cpp, which is not among the sources at hand.
\<close>

definition KVStore_new :: "nat \<Rightarrow> kvstore" where
  "KVStore_new maxl =
     \<lparr>mem = skiplist_new maxl, sstableIndex = (\<lambda>l. []), totalLevel = - 1, TIME = 0, level_dirs = {},
      embedding_file = None, embeddings = Map.empty, hnsw_nodes = [], key_to_label = Map.empty,
      label_to_key = Map.empty, next_label = 0, entry_point_label = 0, current_max_level = - 1,
      embedding_dimension = 768, hnsw_vectors_to_persist_as_deleted = [], loaded_deleted_vectors = []\<rparr>"

section \<open>Frame properties\<close>

subsection \<open>Which fields an operation leaves alone\<close>

text \<open>The part of the store that \<open>get\<close> and \<open>scan\<close> read.\<close>

definition lsm_view :: "kvstore \<Rightarrow> skiplist \<times> (nat \<Rightarrow> sstable list) \<times> int \<times> 64 word \<times> nat set \<times> 32 word list option" where
  "lsm_view st = (mem st, sstableIndex st, totalLevel st, TIME st, level_dirs st, embedding_file st)"

lemma lsm_view_fields:
  "lsm_view a = lsm_view b \<Longrightarrow>
   mem a = mem b \<and> sstableIndex a = sstableIndex b \<and> totalLevel a = totalLevel b \<and>
   TIME a = TIME b \<and> level_dirs a = level_dirs b \<and> embedding_file a = embedding_file b"
  by (simp add: lsm_view_def)

lemma lsm_view_prune_neighbor:
  "prune_neighbor E nv (pq, st) nb = (pq', st') \<Longrightarrow> lsm_view st' = lsm_view st \<and> hnsw_nodes st' = hnsw_nodes st"
  by (auto simp: prune_neighbor_def Let_def lsm_view_def split: option.splits if_splits prod.splits)

lemma lsm_view_foldl_prune_neighbor:
  "foldl (prune_neighbor E nv) (pq, st) nbs = (pq', st') \<Longrightarrow>
   lsm_view st' = lsm_view st \<and> hnsw_nodes st' = hnsw_nodes st"
proof (induction nbs arbitrary: pq st)
  case Nil
  then show ?case by simp
next
  case (Cons nb nbs)
  obtain pq1 st1 where s: "prune_neighbor E nv (pq, st) nb = (pq1, st1)"
    by (cases "prune_neighbor E nv (pq, st) nb") auto
  from Cons.prems s have "foldl (prune_neighbor E nv) (pq1, st1) nbs = (pq', st')" by simp
  from Cons.IH [OF this] lsm_view_prune_neighbor [OF s] show ?case by simp
qed

lemma lsm_view_prune_connections:
  "lsm_view (prune_connections E l lvl mc st) = lsm_view st"
proof (cases "map_of (hnsw_nodes st) l")
  case None
  then show ?thesis by (simp add: prune_connections_def)
next
  case (Some node)
  show ?thesis
  proof (cases "length (connections node) \<le> lvl \<or> length (connections node ! lvl) \<le> mc")
    case True
    with Some show ?thesis by (simp add: prune_connections_def)
  next
    case False
    obtain k l2k where a: "index_default (label_to_key st) l 0 = (k, l2k)"
      by (cases "index_default (label_to_key st) l 0") auto
    obtain nv emb where b: "index_default (embeddings st) k [] = (nv, emb)"
      by (cases "index_default (embeddings st) k []") auto
    let ?st1 = "st\<lparr>label_to_key := l2k, embeddings := emb\<rparr>"
    obtain pq st2 where c: "foldl (prune_neighbor E nv) ([], ?st1) (connections node ! lvl) = (pq, st2)"
      by (cases "foldl (prune_neighbor E nv) ([], ?st1) (connections node ! lvl)") auto
    from lsm_view_foldl_prune_neighbor [OF c] have "lsm_view st2 = lsm_view st"
      by (simp add: lsm_view_def)
    with Some False a b c show ?thesis
      by (simp add: prune_connections_def Let_def lsm_view_def)
  qed
qed

lemma lsm_view_connect_neighbor:
  "lsm_view (connect_neighbor E label lvl st nb) = lsm_view st"
proof -
  have *: "lsm_view (prune_connections E nb lvl HNSW_M_max (st\<lparr>hnsw_nodes := x\<rparr>)) = lsm_view st" for x
    by (simp add: lsm_view_prune_connections) (simp add: lsm_view_def)
  show ?thesis
    by (auto simp: connect_neighbor_def Let_def * split: option.splits) (simp_all add: lsm_view_def)
qed

lemma lsm_view_foldl_connect_neighbor:
  "lsm_view (foldl (connect_neighbor E label lvl) st nbs) = lsm_view st"
  by (induction nbs arbitrary: st) (simp_all add: lsm_view_connect_neighbor)

lemma lsm_view_connect_level:
  "connect_level E label v (st, ep) lvl = (st', ep') \<Longrightarrow> lsm_view st' = lsm_view st"
proof -
  assume a: "connect_level E label v (st, ep) lvl = (st', ep')"
  have *: "lsm_view (prune_connections E label lvl HNSW_M
             (foldl (connect_neighbor E label lvl) (st\<lparr>hnsw_nodes := x\<rparr>) nbs)) = lsm_view st" for x nbs
    by (simp add: lsm_view_prune_connections lsm_view_foldl_connect_neighbor) (simp add: lsm_view_def)
  from a show ?thesis
    by (auto simp: connect_level_def Let_def * split: option.splits prod.splits if_splits)
qed

lemma lsm_view_foldl_connect_level:
  "foldl (connect_level E label v) (st, ep) lvls = (st', ep') \<Longrightarrow> lsm_view st' = lsm_view st"
proof (induction lvls arbitrary: st ep)
  case Nil
  then show ?case by simp
next
  case (Cons lvl lvls)
  obtain st1 ep1 where s: "connect_level E label v (st, ep) lvl = (st1, ep1)"
    by (cases "connect_level E label v (st, ep) lvl") auto
  from Cons.prems s have "foldl (connect_level E label v) (st1, ep1) lvls = (st', ep')" by simp
  from Cons.IH [OF this] lsm_view_connect_level [OF s] show ?case by simp
qed

lemma lsm_view_assign_label: "assign_label k st = (label, st') \<Longrightarrow> lsm_view st' = lsm_view st"
  by (auto simp: assign_label_def lsm_view_def split: option.splits)

lemma lsm_view_install_node: "lsm_view (install_node node_level k label st) = lsm_view st"
  by (simp add: install_node_def Let_def lsm_view_def)

lemma lsm_view_link_node: "lsm_view (link_node E node_level label v st) = lsm_view st"
proof -
  let ?top = "nat (current_max_level st)"
  let ?e1 = "foldl (descend_level E st v) (entry_point_label st) (rev [node_level + 1 ..< ?top + 1])"
  obtain st3 e2 where f: "foldl (connect_level E label v) (st, ?e1) (rev [0 ..< min node_level ?top + 1]) = (st3, e2)"
    by (cases "foldl (connect_level E label v) (st, ?e1) (rev [0 ..< min node_level ?top + 1])") auto
  from lsm_view_foldl_connect_level [OF f] have v: "lsm_view st3 = lsm_view st" .
  have "link_node E node_level label v st =
        (if current_max_level st3 < int node_level
         then st3\<lparr>current_max_level := int node_level, entry_point_label := label\<rparr> else st3)"
    using f by (simp add: link_node_def Let_def)
  with v show ?thesis by (simp add: lsm_view_def)
qed

lemma lsm_view_hnsw_insert: "lsm_view (hnsw_insert E node_level k v st) = lsm_view st"
proof (cases "embedding_dimension st = 0")
  case True
  then show ?thesis by (simp add: hnsw_insert_def)
next
  case False
  obtain label st1 where a: "assign_label k st = (label, st1)"
    by (cases "assign_label k st") auto
  let ?st2 = "install_node node_level k label st1"
  have v2: "lsm_view ?st2 = lsm_view st"
    using lsm_view_assign_label [OF a] by (simp add: lsm_view_install_node)
  show ?thesis
  proof (cases "current_max_level ?st2 < 0")
    case True
    with False a have "hnsw_insert E node_level k v st =
        ?st2\<lparr>entry_point_label := label, current_max_level := int node_level,
             label_to_key := (if label_to_key ?st2 label = None
                              then (label_to_key ?st2)(label \<mapsto> k) else label_to_key ?st2)\<rparr>"
      by (simp add: hnsw_insert_def Let_def)
    with v2 show ?thesis by (simp add: lsm_view_def)
  next
    case c: False
    with False a have "hnsw_insert E node_level k v st = link_node E node_level label v ?st2"
      by (simp add: hnsw_insert_def Let_def)
    with v2 show ?thesis by (simp add: lsm_view_link_node)
  qed
qed

lemma lsm_view_put_hnsw: "lsm_view (put_hnsw E node_level upd k v st) = lsm_view st"
proof -
  have *: "lsm_view (hnsw_insert E node_level k v (st\<lparr>hnsw_nodes := x\<rparr>)) = lsm_view st" for x
    by (simp add: lsm_view_hnsw_insert) (simp add: lsm_view_def)
  show ?thesis
    by (auto simp: put_hnsw_def Let_def * lsm_view_hnsw_insert split: option.splits)
       (simp_all add: lsm_view_def)
qed

text \<open>The part of the store that the HNSW index consists of, with the embeddings.\<close>

definition hnsw_view ::
  "kvstore \<Rightarrow> (64 word \<rightharpoonup> vec) \<times> (nat \<times> HNSWNode) list \<times> (64 word \<rightharpoonup> nat) \<times> (nat \<rightharpoonup> 64 word) \<times>
              nat \<times> nat \<times> int \<times> int \<times> vec list \<times> vec list" where
  "hnsw_view st =
     (embeddings st, hnsw_nodes st, key_to_label st, label_to_key st, next_label st,
      entry_point_label st, current_max_level st, embedding_dimension st,
      hnsw_vectors_to_persist_as_deleted st, loaded_deleted_vectors st)"

text \<open>What \<open>compaction\<close> leaves alone.\<close>

definition cframe :: "kvstore \<Rightarrow> skiplist \<times> 32 word list option \<times> _" where
  "cframe st = (mem st, embedding_file st, hnsw_view st)"

lemma cframe_write_table: "cframe (write_table lvl t st) = cframe st"
  by (simp add: write_table_def Let_def cframe_def hnsw_view_def)

lemma cframe_output_step: "output_step lvl (t, st) e = (t', st') \<Longrightarrow> cframe st' = cframe st"
proof -
  have *: "cframe (write_table lvl x st\<lparr>TIME := y\<rparr>) = cframe st" for x y
    using cframe_write_table [of lvl x st] by (simp add: cframe_def hnsw_view_def)
  show "output_step lvl (t, st) e = (t', st') \<Longrightarrow> cframe st' = cframe st"
    by (cases e) (auto simp: output_step_def Let_def * split: if_splits)
qed

lemma cframe_foldl_output_step:
  "foldl (output_step lvl) (t, st) es = (t', st') \<Longrightarrow> cframe st' = cframe st"
proof (induction es arbitrary: t st)
  case Nil
  then show ?case by simp
next
  case (Cons e es)
  obtain t1 st1 where s: "output_step lvl (t, st) e = (t1, st1)"
    by (cases "output_step lvl (t, st) e") auto
  from Cons.prems s have "foldl (output_step lvl) (t1, st1) es = (t', st')" by simp
  from Cons.IH [OF this] cframe_output_step [OF s] show ?case by simp
qed

lemma cframe_foldl_delsstable: "cframe (foldl (\<lambda>s f. delsstable f s) st fs) = cframe st"
  by (induction fs arbitrary: st) (simp_all add: delsstable_def cframe_def hnsw_view_def)

lemma cframe_compact_level0:
  assumes "compact_level0 st = Some st'"
  shows "cframe st' = cframe st"
proof -
  let ?tables = "sstableIndex st 0 @ overlappingTables st 0 (key_range (sstableIndex st 0))"
  let ?st1 = "st\<lparr>TIME := TIME st + 1\<rparr>"
  let ?nt = "(sstable_reset sstable_empty)\<lparr>ss_time := TIME ?st1\<rparr>"
  let ?lv = "merge_loop ?tables (init_pq ?tables) []"
  obtain t2 st2 where f: "foldl (output_step 1) (?nt, ?st1) ?lv = (t2, st2)"
    by (cases "foldl (output_step 1) (?nt, ?st1) ?lv") auto
  from cframe_foldl_output_step [OF f] have b2: "cframe st2 = cframe st"
    by (simp add: cframe_def hnsw_view_def)
  let ?st3 = "if 0 < getCnt_ss t2 then write_table 1 t2 st2 else st2"
  have b3: "cframe ?st3 = cframe st" using b2 by (simp add: cframe_write_table)
  let ?st4 = "foldl (\<lambda>s f. delsstable f s) ?st3 (map filename ?tables)"
  have b4: "cframe ?st4 = cframe st" using b3 by (simp only: cframe_foldl_delsstable)
  from assms f have "st' = ?st4\<lparr>sstableIndex := (sstableIndex ?st4)(0 := [])\<rparr>"
    by (auto simp: compact_level0_def Let_def split: if_splits)
  then have "cframe st' = cframe ?st4" by (simp add: cframe_def hnsw_view_def)
  with b4 show ?thesis by simp
qed

lemma cframe_compaction_loop: "cframe (compaction_loop level st) = cframe st"
proof (induction level st rule: compaction_loop.induct)
  case (1 level st)
  note eq = compaction_loop.simps [of level st]
  show ?case
  proof (cases "totalLevel st < int level")
    case True
    then show ?thesis by (subst eq) simp
  next
    case nt: False
    let ?maxFiles = "maxFiles_of level"
    show ?thesis
    proof (cases "size_le_int (length (sstableIndex st level)) ?maxFiles")
      case True
      from nt True have "compaction_loop level st = compaction_loop (level + 1) st"
        by (subst eq) (simp add: Let_def)
      with 1(1) [OF nt refl True] show ?thesis by simp
    next
      case big: False
      show ?thesis
      proof (cases "level = 0")
        case l0: True
        show ?thesis
        proof (cases "compact_level0 st")
          case None
          from nt big l0 None have "compaction_loop level st = compaction_loop (level + 1) st"
            by (subst eq) (simp add: Let_def)
          with 1(2) [OF nt refl big l0 None] show ?thesis by simp
        next
          case (Some st')
          note cf = cframe_compact_level0 [OF Some]
          show ?thesis
          proof (cases "int (level + 1) \<le> totalLevel st' \<and>
                        \<not> size_le_int (length (sstableIndex st' (level + 1))) (shl1 (level + 2))")
            case True
            from 1(3) [OF nt refl big l0 Some True] cf
            have "cframe (compaction_loop (level + 1) st') = cframe st" by simp
            moreover from nt big l0 Some True
            have "compaction_loop level st = compaction_loop (level + 1) st'"
              by (subst eq) (simp add: Let_def)
            ultimately show ?thesis by simp
          next
            case False
            with nt big l0 Some have "compaction_loop level st = st'"
              by (subst eq) (auto simp: Let_def)
            with cf show ?thesis by simp
          qed
        qed
      next
        case False
        with nt big have "compaction_loop level st = st"
          by (subst eq) (simp add: Let_def)
        then show ?thesis by simp
      qed
    qed
  qed
qed

lemma cframe_compaction: "cframe (compaction st) = cframe st"
  by (simp add: compaction_def cframe_compaction_loop)

lemma cframe_flush_embeddings:
  "mem (flush_embeddings st) = mem st \<and> hnsw_view (flush_embeddings st) = hnsw_view st \<and>
   TIME (flush_embeddings st) = TIME st \<and> level_dirs (flush_embeddings st) = level_dirs st \<and>
   totalLevel (flush_embeddings st) = totalLevel st \<and> sstableIndex (flush_embeddings st) = sstableIndex st"
  unfolding flush_embeddings_def Let_def hnsw_view_def by simp

lemma flush_frame: "mem (flush st) = skiplist_reset (mem st) \<and> hnsw_view (flush st) = hnsw_view st"
proof -
  obtain ss t where a: "sstable_of_skiplist (TIME st) (mem st) = (ss, t)"
    by (cases "sstable_of_skiplist (TIME st) (mem st)") auto
  define st1 where "st1 = flush_embeddings (st\<lparr>TIME := t\<rparr>)"
  define st2 where "st2 = st1\<lparr>mem := skiplist_reset (mem st1)\<rparr>"
  define st3 where "st3 = (if 0 \<in> level_dirs st2 then st2
                 else st2\<lparr>level_dirs := insert 0 (level_dirs st2),
                          totalLevel := (if totalLevel st2 < 0 then 0 else totalLevel st2)\<rparr>)"
  define st4 where "st4 = (if 0 < getCnt_ss ss
                 then st3\<lparr>sstableIndex :=
                          (sstableIndex st3)(0 := sstableIndex st3 0 @
                             [ss\<lparr>filename := Some (0, ss_time ss)\<rparr>])\<rparr>
                 else st3)"
  have fl: "flush st = compaction st4"
    unfolding flush_def a st4_def st3_def st2_def st1_def Let_def prod.case ..
  have m1: "mem st1 = mem st" and h1: "hnsw_view st1 = hnsw_view st"
    using cframe_flush_embeddings [of "st\<lparr>TIME := t\<rparr>"]
    by (simp_all add: st1_def hnsw_view_def)
  have m2: "mem st2 = skiplist_reset (mem st)" and h2: "hnsw_view st2 = hnsw_view st"
    using m1 h1 by (simp_all add: st2_def hnsw_view_def)
  have m3: "mem st3 = skiplist_reset (mem st)" and h3: "hnsw_view st3 = hnsw_view st"
    using m2 h2 by (simp_all add: st3_def hnsw_view_def)
  have m4: "mem st4 = skiplist_reset (mem st)" and h4: "hnsw_view st4 = hnsw_view st"
    using m3 h3 by (simp_all add: st4_def hnsw_view_def)
  from cframe_compaction [of st4] m4 h4 show ?thesis
    by (simp add: fl cframe_def)
qed

lemma mem_flush: "mem (flush st) = skiplist_reset (mem st)"
  using flush_frame by blast

lemma hnsw_view_flush: "hnsw_view (flush st) = hnsw_view st"
  using flush_frame by blast

lemma mem_put_memtable:
  "mem (put_memtable draws k v st) =
     skiplist_insert draws k v (if needs_flush k v st then skiplist_reset (mem st) else mem st)"
  by (simp add: put_memtable_def Let_def mem_flush)

lemma hnsw_view_put_memtable: "hnsw_view (put_memtable draws k v st) = hnsw_view st"
proof (cases "needs_flush k v st")
  case True
  then have "hnsw_view (put_memtable draws k v st) = hnsw_view (flush st)"
    by (simp add: put_memtable_def Let_def hnsw_view_def)
  then show ?thesis by (simp add: hnsw_view_flush)
next
  case False
  then show ?thesis by (simp add: put_memtable_def Let_def hnsw_view_def)
qed

section \<open>Point reads and writes\<close>

lemma DEL_not_Nil: "DEL \<noteq> []"
  by (simp add: DEL_def)

lemma get_not_DEL: "get st k \<noteq> DEL"
proof (cases "skiplist_search (mem st) k = []")
  case False
  then show ?thesis using DEL_not_Nil by (simp add: get_def Let_def)
next
  case True
  show ?thesis
  proof (cases "snd (get_levels st k [0 ..< nat (totalLevel st + 1)] (0, None))")
    case None
    with True show ?thesis using DEL_not_Nil by (simp add: get_def Let_def)
  next
    case (Some g)
    obtain f off len where g: "g = (f, off, len)" by (cases g)
    with True Some show ?thesis using DEL_not_Nil by (simp add: get_def Let_def)
  qed
qed

lemma get_memtable_hit:
  "skiplist_search (mem st) k \<noteq> [] \<Longrightarrow>
   get st k = (if skiplist_search (mem st) k = DEL then [] else skiplist_search (mem st) k)"
  by (simp add: get_def Let_def)

text \<open>Whether \<open>put\<close> stores the value: it returns early when the embedding of the value has
  another dimension than the store.\<close>

definition put_stores :: "env \<Rightarrow> string \<Rightarrow> kvstore \<Rightarrow> bool" where
  "put_stores E s_val st \<longleftrightarrow>
     put_embedding E s_val (embedding_dimension (determine_dimension E s_val st)) \<noteq> None"

lemma mem_determine_dimension: "mem (determine_dimension E v st) = mem st"
  by (simp add: determine_dimension_def)

lemma mem_record_old_vector: "mem (record_old_vector E k st) = mem st"
  by (simp add: record_old_vector_def Let_def split: option.splits)

lemma mem_put_hnsw: "mem (put_hnsw E lvl u k v st) = mem st"
  using lsm_view_put_hnsw [of E lvl u k v st] by (simp add: lsm_view_def)

lemma mem_put:
  assumes "put_stores E v st"
  shows "\<exists>m. mem (put E draws lvl k v st) = skiplist_insert draws k v m \<and>
             (m = mem st \<or> m = skiplist_reset (mem st))"
proof -
  let ?st1 = "determine_dimension E v st"
  from assms obtain ev where ev: "put_embedding E v (embedding_dimension ?st1) = Some ev"
    by (auto simp: put_stores_def)
  let ?st3 = "(record_old_vector E k ?st1)\<lparr>embeddings := (embeddings (record_old_vector E k ?st1))(k \<mapsto> ev)\<rparr>"
  have m3: "mem ?st3 = mem st"
    by (simp add: mem_record_old_vector mem_determine_dimension)
  have "mem (put E draws lvl k v st) = mem (put_memtable draws k v ?st3)"
    using ev by (simp add: put_def Let_def mem_put_hnsw)
  also have "\<dots> = skiplist_insert draws k v (if needs_flush k v ?st3 then skiplist_reset (mem ?st3) else mem ?st3)"
    by (rule mem_put_memtable)
  finally show ?thesis using m3 by (cases "needs_flush k v ?st3") auto
qed

lemma put_not_stored:
  "\<not> put_stores E v st \<Longrightarrow> put E draws lvl k v st = determine_dimension E v st"
  by (simp add: put_stores_def put_def Let_def)

lemma search_put:
  assumes wf: "sl_wf (mem st)" and st: "put_stores E v st"
  shows "skiplist_search (mem (put E draws lvl k v st)) k = v \<and> sl_wf (mem (put E draws lvl k v st))"
proof -
  from mem_put [OF st] obtain m where m: "mem (put E draws lvl k v st) = skiplist_insert draws k v m"
    and mm: "m = mem st \<or> m = skiplist_reset (mem st)" by blast
  from mm wf have "sl_wf m" by (auto simp: sl_wf_reset)
  with m show ?thesis by (simp add: skiplist_search_insert sl_wf_insert)
qed

lemma sl_wf_put: "sl_wf (mem st) \<Longrightarrow> sl_wf (mem (put E draws lvl k v st))"
  using search_put [of st E v draws lvl k] put_not_stored [of E v st draws lvl k]
  by (cases "put_stores E v st") (auto simp: mem_determine_dimension)

lemma get_put:
  assumes wf: "sl_wf (mem st)" and st: "put_stores E v st" and ne: "v \<noteq> []"
  shows "get (put E draws lvl k v st) k = (if v = DEL then [] else v)"
  using search_put [OF wf st, of draws lvl k] ne by (simp add: get_memtable_hit)

lemma put_stores_DEL: "put_stores E DEL st"
  by (simp add: put_stores_def put_embedding_def)

lemma mem_del:
  "mem (snd (del draws k st)) = (if skiplist_search (mem st) k = [] then mem st
                                 else skiplist_insert draws k DEL (mem st))"
  by (auto simp: del_def Let_def split: option.splits)

lemma get_del:
  assumes wf: "sl_wf (mem st)" and hit: "skiplist_search (mem st) k \<noteq> []"
  shows "fst (del draws k st) \<and> get (snd (del draws k st)) k = []"
proof -
  from hit have "fst (del draws k st)" by (simp add: del_def Let_def)
  moreover have "skiplist_search (mem (snd (del draws k st))) k = DEL"
    using hit wf by (simp add: mem_del skiplist_search_insert)
  then have "get (snd (del draws k st)) k = []"
    using DEL_not_Nil by (simp add: get_memtable_hit)
  ultimately show ?thesis by simp
qed

lemma sl_wf_del_store: "sl_wf (mem st) \<Longrightarrow> sl_wf (mem (snd (del draws k st)))"
  by (simp add: mem_del sl_wf_insert)

lemma sl_wf_KVStore_new: "sl_wf (mem (KVStore_new maxl))"
  by (simp add: KVStore_new_def sl_wf_new)

subsection \<open>Concrete stores\<close>

text \<open>
  An environment for concrete runs: the embedding model gives no vector (\<open>put\<close> then
  stores the zero vector), every distance is 0, and vectors are compared exactly.
\<close>

definition env0 :: env where
  "env0 = \<lparr>embedding_single = (\<lambda>s. []), calculate_distance = (\<lambda>a b. 0),
           compare_float_vectors = (\<lambda>a b. a = b)\<rparr>"

text \<open>The run with the given records, as \<open>insert\<close> builds it, in the file \<open>level-L/T.sst\<close>.\<close>

definition run_of :: "nat \<Rightarrow> 64 word \<Rightarrow> (64 word \<times> string) list \<Rightarrow> sstable" where
  "run_of level t records =
     (foldl (\<lambda>ss (k, v). sstable_insert k v ss) (sstable_empty\<lparr>ss_time := t\<rparr>) records)
       \<lparr>filename := Some (level, t)\<rparr>"

text \<open>
  The store that the constructor builds on a directory that holds one run, in \<open>level-0\<close>,
  and no \<open>embeddings.bin\<close>: the head is loaded into the index, \<open>TIME\<close> is the timestamp
  of the run, the memtable and the HNSW index are empty.
\<close>

definition store_with_run :: "sstable \<Rightarrow> kvstore" where
  "store_with_run t =
     (KVStore_new 16)\<lparr>sstableIndex := (\<lambda>l. if l = 0 then [t] else []), totalLevel := 0,
                      level_dirs := {0}, TIME := ss_time t\<rparr>"

lemma skiplist_search_new: "skiplist_search (skiplist_new maxl) k = []"
  by (simp add: skiplist_search_map_of sl_wf_new entries_def) (simp add: skiplist_new_def)

lemma skiplist_scan_new: "skiplist_scan (skiplist_new maxl) k1 k2 = []"
proof -
  have "\<exists>p. sl_nodes (skiplist_new maxl) = p @ lowerBound (skiplist_new maxl) k1"
    by (rule lowerBound_suffix)
  then have "lowerBound (skiplist_new maxl) k1 = []" by (simp add: skiplist_new_def)
  then show ?thesis by (simp add: skiplist_scan_def)
qed

definition run_1a :: sstable where
  "run_1a = run_of 0 1 [(1, ''a'')]"

lemma run_1a_eq:
  "run_1a = \<lparr>filename = Some (0, 1), ss_time = 1, minV = 1, maxV = 1,
             ss_index = [\<lparr>ikey = 1, offset = 1\<rparr>], ss_data = [''a''], ss_bytes = 10285\<rparr>"
  by (simp add: run_1a_def run_of_def sstable_insert_def sstable_empty_def getOffset_def getCnt_ss_def)

lemma searchOffset_run_1a: "searchOffset run_1a 1 = (0, 1)"
  by (simp add: run_1a_eq searchOffset_def search_ss_def lowerBound_ss_def getCnt_ss_def getKey_def
      getOffset_def Let_def)

lemma file_offset_small:
  "0 \<le> off \<Longrightarrow> off + 32 + 10240 + 12 * int (getCnt_ss h) < 2 ^ 31 \<Longrightarrow>
   file_offset off h = off + 32 + 10240 + 12 * int (getCnt_ss h)"
  unfolding file_offset_def by (subst sint_sbintrunc') (simp add: signed_take_bit_int_eq_self)

lemma file_offset_run_1a: "file_offset 0 run_1a = 10284"
  by (subst file_offset_small) (simp_all add: run_1a_eq getCnt_ss_def)

lemma fetch_run_1a: "fetchString run_1a 10284 1 = ''a''"
  by (simp add: run_1a_eq fetchString_def file_image_def getCnt_ss_def Let_def)

lemma get_levels_run_1a:
  "get_levels (store_with_run run_1a) 1 [0 ..< nat (totalLevel (store_with_run run_1a) + 1)] (0, None)
   = (1, Some (run_1a, 10284, 1))"
proof -
  have a: "[0 ..< nat (totalLevel (store_with_run run_1a) + 1)] = [0]"
    by (simp add: store_with_run_def)
  have b: "sstableIndex (store_with_run run_1a) 0 = [run_1a]"
    by (simp add: store_with_run_def)
  have c: "minV run_1a = 1" "maxV run_1a = 1" "ss_time run_1a = 1" "getCnt_ss run_1a = 1"
    by (simp_all add: run_1a_eq getCnt_ss_def)
  show ?thesis
    unfolding a by (simp add: b c searchOffset_run_1a file_offset_run_1a Let_def)
qed


text \<open>
  Claim C1, as amended. After \<open>put(k, v)\<close> with a value \<open>v\<close> that is neither empty nor the
  tombstone string, and that \<open>put\<close> stores (it returns early when the embedding of \<open>v\<close>
  has another dimension than the store), \<open>get(k)\<close> returns \<open>v\<close>, for every store whose
  memtable is a well-formed skip list; the memtable stays well-formed.
\<close>

theorem put_then_get:
  assumes "sl_wf (mem st)" and "put_stores E v st" and "v \<noteq> []" and "v \<noteq> DEL"
  shows "get (put E draws node_level k v st) k = v \<and> sl_wf (mem (put E draws node_level k v st))"
  using get_put [OF assms(1,2,3), of draws node_level k] assms(4) sl_wf_put [OF assms(1)]
  by simp

theorem put_then_get_witness:
  "sl_wf (mem (KVStore_new 16)) \<and> put_stores env0 ''a'' (KVStore_new 16) \<and>
   get (put env0 [] 0 1 ''a'' (KVStore_new 16)) 1 = ''a''"
proof -
  have a: "sl_wf (mem (KVStore_new 16))" by (rule sl_wf_KVStore_new)
  have b: "put_stores env0 ''a'' (KVStore_new 16)"
    by (simp add: put_stores_def put_embedding_def determine_dimension_def KVStore_new_def env0_def DEL_def)
  have c: "''a'' \<noteq> []" "''a'' \<noteq> DEL" by (simp_all add: DEL_def)
  from put_then_get [OF a b c] a b show ?thesis by simp
qed

text \<open>
  Claim C1 as stated fails for the tombstone string: after \<open>put(1, "~DELETED~")\<close> on a new
  store, \<open>get(1)\<close> is the empty string.
\<close>

theorem put_then_get_counterexample:
  "get (put env0 [] 0 1 ''~DELETED~'' (KVStore_new 16)) 1 = [] \<and>
   get (put env0 [] 0 1 ''~DELETED~'' (KVStore_new 16)) 1 \<noteq> ''~DELETED~''"
  using get_put [where st = "KVStore_new 16" and E = env0 and v = DEL and draws = "[]" and lvl = 0 and k = 1,
                 OF sl_wf_KVStore_new put_stores_DEL DEL_not_Nil]
  by (simp add: DEL_def)

text \<open>
  Claim C10. \<open>get\<close> never returns the tombstone string, in any state of the store. After
  \<open>put(k, "~DELETED~")\<close>, and after a \<open>del(k)\<close> of a key that the memtable holds, \<open>get(k)\<close>
  returns the empty string: the two cannot be told apart by reading, and \<open>put\<close> followed by
  \<open>get\<close> does not give back this one value.
\<close>

theorem get_never_tombstone:
  "get st k \<noteq> DEL \<and>
   (sl_wf (mem st) \<longrightarrow>
      get (put E draws node_level k DEL st) k = [] \<and>
      get (put E draws node_level k DEL st) k \<noteq> DEL \<and>
      (skiplist_search (mem st) k \<noteq> [] \<longrightarrow> get (snd (del draws k st)) k = []))"
  using get_not_DEL [of st k]
    get_put [where st = st and E = E and v = DEL and draws = draws and lvl = node_level and k = k,
             OF _ put_stores_DEL DEL_not_Nil]
    get_del [where st = st and k = k and draws = draws] DEL_not_Nil
  by auto

theorem get_never_tombstone_witness:
  "sl_wf (mem (put env0 [] 0 1 ''a'' (KVStore_new 16))) \<and>
   skiplist_search (mem (put env0 [] 0 1 ''a'' (KVStore_new 16))) 1 \<noteq> [] \<and>
   get (put env0 [] 0 1 DEL (put env0 [] 0 1 ''a'' (KVStore_new 16))) 1 = [] \<and>
   get (snd (del [] 1 (put env0 [] 0 1 ''a'' (KVStore_new 16)))) 1 = []"
proof -
  let ?st = "put env0 [] 0 1 ''a'' (KVStore_new 16)"
  have b: "put_stores env0 ''a'' (KVStore_new 16)"
    by (simp add: put_stores_def put_embedding_def determine_dimension_def KVStore_new_def env0_def DEL_def)
  from search_put [where st = "KVStore_new 16" and draws = "[]" and lvl = 0 and k = 1,
                    OF sl_wf_KVStore_new b]
  have s: "skiplist_search (mem ?st) 1 = ''a''" and wf: "sl_wf (mem ?st)" by simp_all
  from s have ne: "skiplist_search (mem ?st) 1 \<noteq> []" by simp
  from get_never_tombstone [where st = ?st and k = 1 and E = env0 and draws = "[]" and node_level = 0]
    wf ne show ?thesis by simp
qed

text \<open>
  Claim C2, where the code departs from it: a key that is in a sorted run only. On the store
  opened on a directory whose \<open>level-0\<close> holds the run with the record \<open>(1, "a")\<close>,
  \<open>del(1)\<close> returns false and changes nothing, and \<open>get(1)\<close> still returns \<open>"a"\<close>.
\<close>

theorem del_misses_sorted_run:
  "del [] 1 (store_with_run run_1a) = (False, store_with_run run_1a) \<and>
   get (snd (del [] 1 (store_with_run run_1a))) 1 = ''a''"
proof -
  have m: "skiplist_search (mem (store_with_run run_1a)) 1 = []"
    by (simp add: store_with_run_def KVStore_new_def skiplist_search_new)
  then have d: "del [] 1 (store_with_run run_1a) = (False, store_with_run run_1a)"
    by (simp add: del_def)
  have "get (store_with_run run_1a) 1 = ''a''"
    unfolding get_def Let_def m get_levels_run_1a
    by (simp add: fetch_run_1a DEL_def)
  with d show ?thesis by simp
qed

section \<open>Range scans\<close>

definition run_1a5b :: sstable where
  "run_1a5b = run_of 0 1 [(1, ''a''), (5, ''b'')]"

lemma run_1a5b_eq:
  "run_1a5b = \<lparr>filename = Some (0, 1), ss_time = 1, minV = 1, maxV = 5,
             ss_index = [\<lparr>ikey = 1, offset = 1\<rparr>, \<lparr>ikey = 5, offset = 2\<rparr>], ss_data = [''a'', ''b''], ss_bytes = 10298\<rparr>"
  by (simp add: run_1a5b_def run_of_def sstable_insert_def sstable_empty_def getOffset_def getCnt_ss_def)

lemma run_1a5b_facts:
  "lowerBound_ss run_1a5b 5 = Suc 0" "lowerBound_ss run_1a5b 1 = 0" "lowerBound_ss run_1a5b 2 = Suc 0"
  "lowerBound_ss run_1a5b 3 = Suc 0" "getCnt_ss run_1a5b = 2"
  "search_ss run_1a5b 1 = 0" "search_ss run_1a5b 3 = - 1" "getKey run_1a5b (Suc 0) = 5"
  "maxV run_1a5b = 5" "minV run_1a5b = 1" "ss_time run_1a5b = 1"
  "getOffset run_1a5b 0 = 1" "getOffset run_1a5b 1 = 2"
  by (simp_all add: run_1a5b_eq lowerBound_ss_def search_ss_def getCnt_ss_def getKey_def getOffset_def)

lemma scan_head_run_1a5b:
  "scan_head 5 1 ([], [], []) run_1a5b =
     ([\<lparr>mkey = 5, mtime = 1, mindex = Suc 0, mid = 0\<rparr>], [Suc 0], [run_1a5b])"
  "scan_head 2 3 ([], [], []) run_1a5b =
     ([\<lparr>mkey = 5, mtime = 1, mindex = Suc 0, mid = 0\<rparr>], [Suc 0], [run_1a5b])"
  by (simp_all add: scan_head_def run_1a5b_facts Let_def pq_push_Nil)

lemma fetch_run_1a5b: "fetchString run_1a5b 10297 1 = ''b''"
  by (simp add: run_1a5b_eq fetchString_def file_image_def getCnt_ss_def Let_def)

lemma scan_loop_run_1a5b:
  "scan_loop [] [Suc 0] [run_1a5b] [\<lparr>mkey = 5, mtime = 1, mindex = Suc 0, mid = 0\<rparr>] INF_u64 = [(5, ''b'')]"
proof -
  have i: "INF_u64 \<noteq> 5" by (simp add: INF_u64_def)
  have "scan_loop [] [Suc 0] [run_1a5b] [\<lparr>mkey = 5, mtime = 1, mindex = Suc 0, mid = 0\<rparr>] INF_u64
        = (let res = fetchString run_1a5b (sint (10240 + 32 + (of_nat (getCnt_ss run_1a5b) :: 32 word) * 12
                                                 + getOffset run_1a5b 0))
                       (getOffset run_1a5b 1 - getOffset run_1a5b 0)
           in if res \<noteq> [] \<and> res \<noteq> DEL then [(5, res)] else [])"
    by (simp add: pq_pop_single Let_def i)
  also have "\<dots> = [(5, ''b'')]"
    unfolding run_1a5b_facts by (simp add: fetch_run_1a5b DEL_def)
  finally show ?thesis .
qed

lemma scan_store_with_run:
  "scan (store_with_run t) key1 key2 =
     (case scan_head key1 key2 ([], [], []) t of (heap, ends, sshs) \<Rightarrow> scan_loop [] ends sshs heap INF_u64)"
proof -
  have m: "skiplist_scan (mem (store_with_run t)) key1 key2 = []"
    by (simp add: store_with_run_def KVStore_new_def skiplist_scan_new)
  have l: "concat (map (sstableIndex (store_with_run t)) [0 ..< nat (totalLevel (store_with_run t) + 1)]) = [t]"
    by (simp add: store_with_run_def)
  show ?thesis
    unfolding scan_def m l by (simp del: scan_loop.simps)
qed

text \<open>
  Claim C9, where the code departs from it. On the store opened on a directory whose
  \<open>level-0\<close> holds the run with the records \<open>(1, "a")\<close> and \<open>(5, "b")\<close>, \<open>scan(5, 1)\<close>
  returns the record of key 5: the first entry of a run at or after \<open>key1\<close> goes into the
  heap without a comparison with \<open>key2\<close>. For the same reason \<open>scan(2, 3)\<close> returns that
  record, whose key is not between 2 and 3.
\<close>

theorem scan_reversed_bounds:
  "scan (store_with_run run_1a5b) 5 1 = [(5, ''b'')] \<and>
   scan (store_with_run run_1a5b) 2 3 = [(5, ''b'')]"
  by (simp add: scan_store_with_run scan_head_run_1a5b scan_loop_run_1a5b del: scan_loop.simps)


section \<open>Compaction of the levels\<close>

definition store_with_levels :: "sstable list list \<Rightarrow> kvstore" where
  "store_with_levels levels =
     (KVStore_new 16)\<lparr>sstableIndex := (\<lambda>l. if l < length levels then levels ! l else []),
                      totalLevel := int (length levels) - 1, level_dirs := {..<length levels},
                      TIME := foldl max 0 (map ss_time (concat levels))\<rparr>"

definition level1_runs :: "sstable list" where
  "level1_runs = [run_of 1 1 [(1, ''a'')], run_of 1 2 [(2, ''b'')], run_of 1 3 [(3, ''c'')],
                  run_of 1 4 [(4, ''d'')], run_of 1 5 [(5, ''e'')]]"

lemma compaction_loop_within_cap:
  "int level \<le> totalLevel st \<Longrightarrow> size_le_int (length (sstableIndex st level)) (maxFiles_of level) \<Longrightarrow>
   compaction_loop level st = compaction_loop (level + 1) st"
  by (subst compaction_loop.simps) (simp add: Let_def)

lemma compaction_loop_upper_level:
  "int level \<le> totalLevel st \<Longrightarrow> \<not> size_le_int (length (sstableIndex st level)) (maxFiles_of level) \<Longrightarrow>
   level \<noteq> 0 \<Longrightarrow> compaction_loop level st = st"
  by (subst compaction_loop.simps) (simp add: Let_def)

lemma compaction_loop_reaches:
  assumes "int L \<le> totalLevel st" "L \<noteq> 0"
    and "\<not> size_le_int (length (sstableIndex st L)) (maxFiles_of L)"
    and "\<forall>l. level \<le> l \<and> l < L \<longrightarrow> size_le_int (length (sstableIndex st l)) (maxFiles_of l)"
    and "level \<le> L"
  shows "compaction_loop level st = st"
  using assms(4,5)
proof (induction "L - level" arbitrary: level)
  case 0
  then have "level = L" by simp
  with assms(1,2,3) show ?case by (simp add: compaction_loop_upper_level)
next
  case (Suc n)
  then have lt: "level < L" by simp
  with Suc.prems have cap: "size_le_int (length (sstableIndex st level)) (maxFiles_of level)" by simp
  from lt assms(1) have "int level \<le> totalLevel st" by simp
  from compaction_loop_within_cap [OF this cap]
  have "compaction_loop level st = compaction_loop (level + 1) st" .
  also have "\<dots> = st"
    using Suc.hyps(1) [of "level + 1"] Suc.hyps(2) Suc.prems lt by simp
  finally show ?case .
qed

text \<open>
  Claim C4, where the code departs from it. When a level \<open>L\<close> above 0 holds more runs than
  its cap, and no level before it does, \<open>compaction\<close> leaves the store as it is: the branch
  selects the oldest runs and the overlapping runs of level \<open>L + 1\<close>, and returns. Nothing
  is merged, nothing is written to level \<open>L + 1\<close>, and level \<open>L\<close> stays over its cap.
\<close>

theorem compaction_upper_level_unmerged:
  assumes "1 \<le> L" and "int L \<le> totalLevel st"
    and "\<forall>l<L. size_le_int (length (sstableIndex st l)) (maxFiles_of l)"
    and "\<not> size_le_int (length (sstableIndex st L)) (maxFiles_of L)"
  shows "compaction st = st"
  unfolding compaction_def
  using compaction_loop_reaches [of L st 0] assms by simp

theorem compaction_upper_level_unmerged_witness:
  "int 1 \<le> totalLevel (store_with_levels [[], level1_runs]) \<and>
   length (sstableIndex (store_with_levels [[], level1_runs]) 0) = 0 \<and>
   length (sstableIndex (store_with_levels [[], level1_runs]) 1) = 5 \<and>
   maxFiles_of 0 = 4 \<and> maxFiles_of 1 = 4 \<and>
   compaction (store_with_levels [[], level1_runs]) = store_with_levels [[], level1_runs] \<and>
   sstableIndex (compaction (store_with_levels [[], level1_runs])) 2 = []"
proof -
  let ?st = "store_with_levels [[], level1_runs]"
  have a: "int 1 \<le> totalLevel ?st" "length (sstableIndex ?st 0) = 0" "length (sstableIndex ?st 1) = 5"
    by (simp_all add: store_with_levels_def level1_runs_def)
  have m: "maxFiles_of 0 = 4" "maxFiles_of 1 = 4" by (simp_all add: maxFiles_of_def shl1_def)
  have c0: "\<forall>l<1. size_le_int (length (sstableIndex ?st l)) (maxFiles_of l)"
    using a m by (simp add: size_le_int_def)
  have c1: "\<not> size_le_int (length (sstableIndex ?st 1)) (maxFiles_of 1)"
    using a m by (simp add: size_le_int_def)
  from compaction_upper_level_unmerged [of 1 ?st, OF _ a(1) c0 c1]
  have e: "compaction ?st = ?st" by simp
  have "sstableIndex ?st 2 = []" by (simp add: store_with_levels_def)
  with a m e show ?thesis by simp
qed












































end
